theory Spec2Isabelle
  imports Main "HOL-Library.AList"
begin

section \<open>Contents, lines and the function-declaration pattern\<close>

text \<open>
  File contents are JavaScript strings. They are modelled as \<^typ>\<open>string\<close>: a list of
  code units below 256. The ECMAScript white-space characters above U+00FF are therefore
  not representable; everything else of the two character classes used by the source is.
\<close>

text \<open>The class \<open>\s\<close> of an ECMAScript regular expression, restricted to code units below 256:
  TAB, LF, VT, FF, CR, SPACE and NO-BREAK SPACE.\<close>

definition is_space :: "char \<Rightarrow> bool" where
  "is_space c = (c \<in> set [CHR 0x09, CHR 0x0A, CHR 0x0B, CHR 0x0C, CHR 0x0D, CHR 0x20, CHR 0xA0])"

text \<open>The class \<open>\w\<close>: ASCII letters, digits and the underscore.\<close>

definition is_word :: "char \<Rightarrow> bool" where
  "is_word c = (let n = (of_char c :: nat) in
     (48 \<le> n \<and> n \<le> 57) \<or> (65 \<le> n \<and> n \<le> 90) \<or> n = 95 \<or> (97 \<le> n \<and> n \<le> 122))"

fun strip_prefix :: "string \<Rightarrow> string \<Rightarrow> string option" where
  "strip_prefix [] s = Some s"
| "strip_prefix (p # ps) [] = None"
| "strip_prefix (p # ps) (c # cs) = (if p = c then strip_prefix ps cs else None)"

text \<open>
  One attempt of \<open>/function\s+(\w+)\s*\(/\<close> anchored at the head of the string: the captured
  name and the text after the match. The three character runs are taken greedily; since
  \<open>\s\<close>, \<open>\w\<close> and the parenthesis are pairwise disjoint, giving back characters of a run
  never makes a failed attempt succeed, so the greedy attempt decides the match.
\<close>

definition match_at :: "string \<Rightarrow> (string \<times> string) option" where
  "match_at s =
     (case strip_prefix ''function'' s of
        None \<Rightarrow> None
      | Some r1 \<Rightarrow>
          if takeWhile is_space r1 = [] then None
          else let r2 = dropWhile is_space r1; name = takeWhile is_word r2 in
            if name = [] then None
            else (case dropWhile is_space (dropWhile is_word r2) of
                    [] \<Rightarrow> None
                  | c # r3 \<Rightarrow> if c = CHR ''('' then Some (name, r3) else None))"

lemma strip_prefix_length: "strip_prefix p s = Some r \<Longrightarrow> length r + length p = length s"
  by (induction p s rule: strip_prefix.induct) (auto split: if_splits)

lemma match_at_shorter:
  assumes "match_at s = Some (name, rest)"
  shows "length rest < length s"
proof -
  from assms obtain r1 c where r1: "strip_prefix ''function'' s = Some r1"
    and r3: "dropWhile is_space (dropWhile is_word (dropWhile is_space r1)) = c # rest"
    by (auto simp: match_at_def Let_def split: option.splits if_splits list.splits)
  have "length (c # rest) \<le> length r1"
    unfolding r3 [symmetric]
    by (meson length_dropWhile_le order_trans)
  moreover have "length r1 \<le> length s"
    using strip_prefix_length [OF r1] by simp
  ultimately show ?thesis by simp
qed

text \<open>
  \<open>[...content.matchAll(functionRegex)].map(m => m[1])\<close>: the global scan. After a match the
  scan resumes behind it; where no match starts, it moves one character on.
\<close>

function matchAll_names :: "string \<Rightarrow> string list" where
  "matchAll_names [] = []"
| "matchAll_names (c # cs) =
     (case match_at (c # cs) of
        Some (name, rest) \<Rightarrow> name # matchAll_names rest
      | None \<Rightarrow> matchAll_names cs)"
  by pat_completeness auto
termination
  by (relation "measure length") (auto dest: match_at_shorter)

text \<open>\<open>content.split('\n')\<close>: the segments between line feeds; the empty string has one.\<close>

fun split_newline :: "string \<Rightarrow> string list" where
  "split_newline [] = [[]]"
| "split_newline (c # cs) =
     (if c = CHR 0x0A then [] # split_newline cs
      else (case split_newline cs of
              [] \<Rightarrow> [[c]]
            | s # ss \<Rightarrow> (c # s) # ss))"

section \<open>ActivityTracker\<close>

record name_changes =
  added :: "string list"
  modified :: "string list"
  removed :: "string list"

record line_changes =
  addedLines :: int
  modifiedLines :: int
  totalLines :: int

record code_changes =
  "functions" :: name_changes
  classes :: name_changes
  "imports" :: name_changes
  lineChanges :: line_changes

definition detectFunctionChanges :: "string \<Rightarrow> string \<Rightarrow> name_changes" where
  "detectFunctionChanges oldContent newContent =
     (let oldFunctions = matchAll_names oldContent;
          newFunctions = matchAll_names newContent
      in \<lparr> added = filter (\<lambda>f. f \<notin> set oldFunctions) newFunctions,
           modified = [],
           removed = filter (\<lambda>f. f \<notin> set newFunctions) oldFunctions \<rparr>)"

definition getLineChanges :: "string \<Rightarrow> string \<Rightarrow> line_changes" where
  "getLineChanges oldContent newContent =
     (let oldLines = split_newline oldContent;
          newLines = split_newline newContent
      in \<lparr> addedLines = int (length newLines) - int (length oldLines),
           modifiedLines = \<bar>int (length newLines) - int (length oldLines)\<bar>,
           totalLines = int (length newLines) \<rparr>)"

text \<open>
  \<open>previousContent\<close> is a JavaScript \<open>Map\<close>: keys are unique and iterate in the order of
  their first insertion. It is modelled as an association list in that order. \<open>set\<close> on a
  present key replaces the value in place, on an absent key it appends; \<open>delete\<close> removes
  the key; \<open>keys().next().value\<close> is the first key, \<open>undefined\<close> on the empty map.
\<close>

type_synonym ('k, 'v) js_map = "('k \<times> 'v) list"

definition Map_get :: "('k, 'v) js_map \<Rightarrow> 'k \<Rightarrow> 'v option" where
  "Map_get m k = map_of m k"

definition Map_set :: "'k \<Rightarrow> 'v \<Rightarrow> ('k, 'v) js_map \<Rightarrow> ('k, 'v) js_map" where
  "Map_set k v m = AList.update k v m"

definition Map_delete :: "'k \<Rightarrow> ('k, 'v) js_map \<Rightarrow> ('k, 'v) js_map" where
  "Map_delete k m = AList.delete k m"

definition Map_size :: "('k, 'v) js_map \<Rightarrow> int" where
  "Map_size m = int (length m)"

definition Map_keys :: "('k, 'v) js_map \<Rightarrow> 'k list" where
  "Map_keys m = map fst m"

definition Map_first_key :: "('k, 'v) js_map \<Rightarrow> 'k option" where
  "Map_first_key m = (case m of [] \<Rightarrow> None | (k, v) # rest \<Rightarrow> Some k)"

text \<open>The constructor's options; an option that is missing or zero takes the default
  (\<open>options.x || default\<close>).\<close>

record tracker_options =
  opt_maxCachedFiles :: "int option"
  opt_retryAttempts :: "int option"
  opt_retryDelay :: "int option"

definition or_default :: "int option \<Rightarrow> int \<Rightarrow> int" where
  "or_default v d = (case v of None \<Rightarrow> d | Some n \<Rightarrow> if n = 0 then d else n)"

text \<open>The tracker's state. The reference to the GitManager is passed beside it, and the
  field \<open>currentActivity\<close>, which no method reads or writes, is left out.\<close>

record ActivityTracker =
  isTracking :: bool
  previousContent :: "(string, string) js_map"
  maxCachedFiles :: int
  retryAttempts :: int
  retryDelay :: int

definition new_ActivityTracker :: "tracker_options \<Rightarrow> ActivityTracker" where
  "new_ActivityTracker options =
     \<lparr> isTracking = False,
       previousContent = [],
       maxCachedFiles = or_default (opt_maxCachedFiles options) 100,
       retryAttempts = or_default (opt_retryAttempts options) 3,
       retryDelay = or_default (opt_retryDelay options) 1000 \<rparr>"

text \<open>A saved document as the editor hands it over: its file name, its text, the name of
  the workspace folder that holds it (if any) and the path of its URI.\<close>

record document =
  fileName :: string
  getText :: string
  workspaceFolder :: "string option"
  fsPath :: string

definition managePreviousContent :: "ActivityTracker \<Rightarrow> string \<Rightarrow> string \<Rightarrow> ActivityTracker" where
  "managePreviousContent t file_name content =
     (let cache = previousContent t;
          cache1 = (if Map_size cache \<ge> maxCachedFiles t
                    then (case Map_first_key cache of
                            None \<Rightarrow> cache
                          | Some oldestKey \<Rightarrow> Map_delete oldestKey cache)
                    else cache)
      in t\<lparr>previousContent := Map_set file_name content cache1\<rparr>)"

definition trackCodeChanges :: "ActivityTracker \<Rightarrow> document \<Rightarrow> code_changes \<times> ActivityTracker" where
  "trackCodeChanges t doc =
     (let currentContent = getText doc;
          previous = (case Map_get (previousContent t) (fileName doc) of
                        None \<Rightarrow> []
                      | Some c \<Rightarrow> c);
          changes = \<lparr> functions = detectFunctionChanges previous currentContent,
                      classes = \<lparr> added = [], modified = [], removed = [] \<rparr>,
                      imports = \<lparr> added = [], modified = [], removed = [] \<rparr>,
                      lineChanges = getLineChanges previous currentContent \<rparr>
      in (changes, managePreviousContent t (fileName doc) currentContent))"


text \<open>\<open>uri.fsPath.split(/[\\/]/).pop()\<close>: the text behind the last slash or backslash.\<close>

definition last_path_segment :: "string \<Rightarrow> string" where
  "last_path_segment p = rev (takeWhile (\<lambda>c. c \<noteq> CHR ''/'' \<and> c \<noteq> CHR 0x5C) (rev p))"

definition getProjectName :: "document \<Rightarrow> string" where
  "getProjectName doc =
     (case workspaceFolder doc of
        Some name \<Rightarrow> name
      | None \<Rightarrow> last_path_segment (fsPath doc))"


definition tracker_stop :: "ActivityTracker \<Rightarrow> ActivityTracker" where
  "tracker_stop t = t\<lparr>isTracking := False, previousContent := []\<rparr>"

text \<open>The record that is queued and then written to the remote log.\<close>

record change_summary =
  functions_s :: name_changes
  classes_s :: name_changes
  imports_s :: name_changes
  lineStats :: line_changes
  type_s :: "string list"

record activity_log =
  "file" :: string
  project :: string
  timestamp :: string
  changes :: change_summary

text \<open>Names for the cache's keys in iteration order, for the eviction test of
  \<open>managePreviousContent\<close>, and for a run of cache updates in sequence.\<close>

definition cache_keys :: "ActivityTracker \<Rightarrow> string list" where
  "cache_keys t = Map_keys (previousContent t)"

definition at_capacity :: "ActivityTracker \<Rightarrow> bool" where
  "at_capacity t = (Map_size (previousContent t) \<ge> maxCachedFiles t)"

definition capture_all :: "(string \<times> string) list \<Rightarrow> ActivityTracker \<Rightarrow> ActivityTracker" where
  "capture_all kvs t = fold (\<lambda>(k, v) t. managePreviousContent t k v) kvs t"

text \<open>A tracker configured with room for two files, used for concrete runs.\<close>

definition tracker2 :: ActivityTracker where
  "tracker2 = new_ActivityTracker \<lparr> opt_maxCachedFiles = Some 2, opt_retryAttempts = None, opt_retryDelay = None \<rparr>"

section \<open>Scheduler\<close>

text \<open>
  The scheduler's state. \<open>interval\<close> tells whether the field holds a live timer
  (\<open>setInterval\<close> has been called and \<open>clearInterval\<close> has not), \<open>False\<close> standing for \<open>null\<close>.
\<close>

record Scheduler =
  interval :: bool
  isRunning :: bool
  retryCount :: int
  maxRetries :: int

definition new_Scheduler :: Scheduler where
  "new_Scheduler = \<lparr> interval = False, isRunning = False, retryCount = 0, maxRetries = 3 \<rparr>"

text \<open>What one run of the timer's callback did: the save resolved, the save failed and the
  error was absorbed, or the save failed and \<open>handleError\<close> threw.\<close>

datatype tick_log = TickSucceeded | TickFailed | TickFatal string

definition scheduler_stop :: "Scheduler \<Rightarrow> Scheduler" where
  "scheduler_stop s = (s\<lparr>interval := False\<rparr>)\<lparr>isRunning := False, retryCount := 0\<rparr>"

definition handleError :: "Scheduler \<Rightarrow> Scheduler \<times> string option" where
  "handleError s =
     (let s1 = s\<lparr>retryCount := retryCount s + 1\<rparr>
      in if retryCount s1 \<ge> maxRetries s1
         then (scheduler_stop s1, Some ''Tracking failed after maximum retries'')
         else (s1, None))"

text \<open>
  The timer's callback. Whether \<open>tracker.saveCurrentActivity()\<close> resolves is the parameter
  \<open>saved\<close>; the callback is taken to run to its end before the timer elapses again.
  (\<open>ActivityTracker\<close> defines no method of that name, so with the tracker of this repository
  the call throws and \<open>saved\<close> is \<open>False\<close> at every tick.)
\<close>

definition tick :: "bool \<Rightarrow> Scheduler \<Rightarrow> Scheduler \<times> tick_log" where
  "tick saved s =
     (if saved then (s\<lparr>retryCount := 0\<rparr>, TickSucceeded)
      else (case handleError s of
              (s1, None) \<Rightarrow> (s1, TickFailed)
            | (s1, Some e) \<Rightarrow> (s1, TickFatal e)))"

definition startPeriodicTracking :: "Scheduler \<Rightarrow> Scheduler" where
  "startPeriodicTracking s = (if isRunning s then s else s\<lparr>isRunning := True, interval := True\<rparr>)"

text \<open>
  The scheduler in its environment: calls of \<open>startPeriodicTracking\<close> and \<open>stop\<close> from
  outside, and the moments at which the period elapses. The callback runs at such a moment
  only while the timer is live; each run adds one entry to the log.
\<close>

datatype supervisor_event = StartCalled | StopCalled | TimerElapsed bool

fun supervisor_step :: "Scheduler \<times> tick_log list \<Rightarrow> supervisor_event \<Rightarrow> Scheduler \<times> tick_log list" where
  "supervisor_step (s, log) StartCalled = (startPeriodicTracking s, log)"
| "supervisor_step (s, log) StopCalled = (scheduler_stop s, log)"
| "supervisor_step (s, log) (TimerElapsed saved) =
     (if interval s then (case tick saved s of (s1, entry) \<Rightarrow> (s1, log @ [entry])) else (s, log))"

definition supervisor_run :: "supervisor_event list \<Rightarrow> Scheduler \<Rightarrow> Scheduler \<times> tick_log list" where
  "supervisor_run evs s = foldl supervisor_step (s, []) evs"

definition Running :: "Scheduler \<Rightarrow> bool" where
  "Running s = (isRunning s \<and> interval s)"

definition Stopped :: "Scheduler \<Rightarrow> bool" where
  "Stopped s = (\<not> isRunning s \<and> \<not> interval s)"

section \<open>The retry loop of logFileActivity\<close>

text \<open>A JavaScript error: its message and, for an HTTP failure, the response status.\<close>

datatype js_error = JsError (error_message: string) (error_status: "nat option")

subsection \<open>Numbers\<close>








subsection \<open>The loop\<close>






subsection \<open>The course of a run\<close>

text \<open>
  The record of a save in the specification's words: the file, the project and the time,
  with the summary of the document's text against the snapshot that the cache holds for
  the file (the empty text if it holds none): the function names that only the new text
  declares, those that only the snapshot declares, the line statistics, and a tag for each
  of the three categories that is not empty.
\<close>

definition captured_record :: "ActivityTracker \<Rightarrow> document \<Rightarrow> string \<Rightarrow> activity_log" where
  "captured_record t doc time =
     (let snapshot = (case Map_get (previousContent t) (fileName doc) of None \<Rightarrow> [] | Some c \<Rightarrow> c);
          names = detectFunctionChanges snapshot (getText doc);
          line_stats = getLineChanges snapshot (getText doc)
      in \<lparr> file = fileName doc,
           project = getProjectName doc,
           timestamp = time,
           changes = \<lparr> functions_s = names,
                       classes_s = \<lparr> added = [], modified = [], removed = [] \<rparr>,
                       imports_s = \<lparr> added = [], modified = [], removed = [] \<rparr>,
                       lineStats = line_stats,
                       type_s = (if added names \<noteq> [] then [''FUNCTION_ADDED''] else []) @
                                (if removed names \<noteq> [] then [''FUNCTION_REMOVED''] else []) @
                                (if 0 < modifiedLines line_stats then [''CODE_MODIFIED''] else []) \<rparr> \<rparr>)"

text \<open>A record that reports no change of the document.\<close>

definition unchanged_record :: "document \<Rightarrow> string \<Rightarrow> activity_log" where
  "unchanged_record doc time =
     \<lparr> file = fileName doc,
       project = getProjectName doc,
       timestamp = time,
       changes = \<lparr> functions_s = \<lparr> added = [], modified = [], removed = [] \<rparr>,
                   classes_s = \<lparr> added = [], modified = [], removed = [] \<rparr>,
                   imports_s = \<lparr> added = [], modified = [], removed = [] \<rparr>,
                   lineStats = \<lparr> addedLines = 0, modifiedLines = 0,
                                 totalLines = int (length (split_newline (getText doc))) \<rparr>,
                   type_s = [] \<rparr> \<rparr>"

text \<open>
  A run of \<open>logFileActivity\<close> on a document, attempt by attempt, the attempts counted from
  0: the tracker after \<open>k\<close> attempts (each has written the document's text to the cache),
  the record of attempt \<open>k\<close> (captured against the cache as it is then), the manager's
  state after \<open>k\<close> attempts (each has handed its record to \<open>submit\<close>), and what \<open>submit\<close>
  answers in attempt \<open>k\<close>: \<open>None\<close> when it resolves, the error when it throws.
\<close>

definition tracker_at :: "ActivityTracker \<Rightarrow> document \<Rightarrow> nat \<Rightarrow> ActivityTracker" where
  "tracker_at t doc k = ((\<lambda>u. managePreviousContent u (fileName doc) (getText doc)) ^^ k) t"

definition record_at :: "(nat \<Rightarrow> string) \<Rightarrow> document \<Rightarrow> ActivityTracker \<Rightarrow> nat \<Rightarrow> activity_log" where
  "record_at now doc t k = captured_record (tracker_at t doc k) doc (now k)"

















section \<open>GithubAPI and the remote store\<close>

text \<open>
  The text of a remote file, by what \<open>JSON.parse\<close> makes of it: the text that
  \<open>JSON.stringify\<close> produces for an array of activity records, the text of some JSON value
  that is not an array, or text that is not JSON at all (which includes the empty string).
\<close>

datatype content =
    JsonArray "activity_log list"
  | JsonOther
  | PlainText string

datatype json_value = ParsedArray "activity_log list" | ParsedOther

definition JSON_parse :: "content \<Rightarrow> js_error + json_value" where
  "JSON_parse c =
     (case c of
        JsonArray records \<Rightarrow> Inr (ParsedArray records)
      | JsonOther \<Rightarrow> Inr ParsedOther
      | PlainText s \<Rightarrow> Inl (JsError ''Unexpected token in JSON'' None))"

definition JSON_stringify :: "activity_log list \<Rightarrow> content" where
  "JSON_stringify records = JsonArray records"

text \<open>\<open>if (existingContent)\<close>: every string but the empty one is truthy.\<close>

definition truthy :: "content \<Rightarrow> bool" where
  "truthy c = (c \<noteq> PlainText [])"

text \<open>The decimal digits of a number, as a template literal prints it.\<close>

fun show_nat :: "nat \<Rightarrow> string" where
  "show_nat n =
     (if n < 10 then [char_of (48 + n)]
      else show_nat (n div 10) @ [char_of (48 + n mod 10)])"

declare show_nat.simps [simp del]

subsection \<open>The remote store behind octokit\<close>

text \<open>
  The octokit client and the store it talks to are the environment of the program. They
  are modelled by the three requests the source sends (\<open>repos.get\<close>, \<open>repos.getContent\<close>,
  \<open>repos.createOrUpdateFileContents\<close>) answered from an explicit state, with failures of
  the transport given in advance as a schedule.

  What is stored under a path of a repository: a file with its blob SHA (the concurrency
  token) and its text, or a directory.
\<close>

datatype resource = File nat content | Directory

text \<open>One call of \<open>repos.createOrUpdateFileContents\<close>, as sent: \<open>req_sha\<close> is \<open>None\<close> when
  the \<open>sha\<close> argument is \<open>undefined\<close>.\<close>

record put_request =
  req_repo :: string
  req_path :: string
  req_message :: string
  req_content :: content
  req_sha :: "nat option"

text \<open>
  The account on the remote side, and the transport to it. \<open>faults\<close> lists, for the coming
  requests in order, whether the request fails before the store answers it (with the
  error given) or goes through; past the end of the list every request goes through.
  \<open>requests\<close> records the write requests sent, \<open>next_sha\<close> is the token the store gives
  to the next blob it writes.
\<close>

record github =
  repos :: "string set"
  files :: "string \<times> string \<Rightarrow> resource option"
  next_sha :: nat
  faults :: "js_error option list"
  requests :: "put_request list"

definition next_fault :: "github \<Rightarrow> js_error option \<times> github" where
  "next_fault gh =
     (case faults gh of
        [] \<Rightarrow> (None, gh)
      | f # fs \<Rightarrow> (f, gh\<lparr>faults := fs\<rparr>))"

definition not_found :: js_error where
  "not_found = JsError ''Not Found'' (Some 404)"

definition lookup :: "github \<Rightarrow> string \<Rightarrow> string \<Rightarrow> resource option" where
  "lookup gh repo path = (if repo \<in> repos gh then files gh (repo, path) else None)"

definition repos_get :: "github \<Rightarrow> string \<Rightarrow> (js_error + unit) \<times> github" where
  "repos_get gh repo =
     (case next_fault gh of
        (Some e, gh1) \<Rightarrow> (Inl e, gh1)
      | (None, gh1) \<Rightarrow> (if repo \<in> repos gh1 then Inr () else Inl not_found, gh1))"

definition repos_getContent :: "github \<Rightarrow> string \<Rightarrow> string \<Rightarrow> (js_error + resource) \<times> github" where
  "repos_getContent gh repo path =
     (case next_fault gh of
        (Some e, gh1) \<Rightarrow> (Inl e, gh1)
      | (None, gh1) \<Rightarrow>
          (case lookup gh1 repo path of
             None \<Rightarrow> (Inl not_found, gh1)
           | Some r \<Rightarrow> (Inr r, gh1)))"

text \<open>
  The store accepts a write without token where nothing is stored, and a write whose
  token is the SHA of the file stored there; it rejects every other write.
\<close>

definition repos_createOrUpdateFileContents ::
  "github \<Rightarrow> put_request \<Rightarrow> (js_error + unit) \<times> github" where
  "repos_createOrUpdateFileContents gh req =
     (case next_fault (gh\<lparr>requests := requests gh @ [req]\<rparr>) of
        (Some e, gh1) \<Rightarrow> (Inl e, gh1)
      | (None, gh1) \<Rightarrow>
          if req_repo req \<notin> repos gh1 then (Inl not_found, gh1)
          else let accepted =
                     (case files gh1 (req_repo req, req_path req) of
                        None \<Rightarrow> req_sha req = None
                      | Some (File sha c) \<Rightarrow> req_sha req = Some sha
                      | Some Directory \<Rightarrow> False)
               in if accepted
                  then (Inr (),
                        gh1\<lparr>files := (files gh1)((req_repo req, req_path req) \<mapsto>
                                         File (next_sha gh1) (req_content req)),
                            next_sha := next_sha gh1 + 1\<rparr>)
                  else (Inl (JsError ''Conflict'' (Some 409)), gh1))"

subsection \<open>GithubAPI\<close>

record GithubAPI =
  username :: string
  octokit :: github

definition checkRepoExists :: "GithubAPI \<Rightarrow> string \<Rightarrow> (js_error + bool) \<times> GithubAPI" where
  "checkRepoExists api repo =
     (case repos_get (octokit api) repo of
        (Inr u, gh1) \<Rightarrow> (Inr True, api\<lparr>octokit := gh1\<rparr>)
      | (Inl error, gh1) \<Rightarrow>
          if error_status error = Some 404 then (Inr False, api\<lparr>octokit := gh1\<rparr>)
          else (Inl error, api\<lparr>octokit := gh1\<rparr>))"

definition update_failed :: "js_error \<Rightarrow> js_error" where
  "update_failed error = JsError (''Failed to update file: '' @ error_message error) None"

definition put_file ::
  "GithubAPI \<Rightarrow> string \<Rightarrow> string \<Rightarrow> content \<Rightarrow> string \<Rightarrow> nat option \<Rightarrow> (js_error + unit) \<times> GithubAPI" where
  "put_file api repo path content message sha =
     (case repos_createOrUpdateFileContents (octokit api)
             \<lparr> req_repo = repo, req_path = path, req_message = message,
               req_content = content, req_sha = sha \<rparr> of
        (Inl error, gh1) \<Rightarrow> (Inl (update_failed error), api\<lparr>octokit := gh1\<rparr>)
      | (Inr updateResponse, gh1) \<Rightarrow> (Inr updateResponse, api\<lparr>octokit := gh1\<rparr>))"

definition updateFile ::
  "GithubAPI \<Rightarrow> string \<Rightarrow> string \<Rightarrow> content \<Rightarrow> string \<Rightarrow> (js_error + unit) \<times> GithubAPI" where
  "updateFile api repo path content message =
     (case checkRepoExists api repo of
        (Inl error, api1) \<Rightarrow> (Inl (update_failed error), api1)
      | (Inr repoExists, api1) \<Rightarrow>
          if \<not> repoExists
          then (Inl (update_failed (JsError (''Repository '' @ repo @ '' does not exist'') None)), api1)
          else (case repos_getContent (octokit api1) repo path of
                  (Inr (File sha c), gh2) \<Rightarrow>
                    put_file (api1\<lparr>octokit := gh2\<rparr>) repo path content message (Some sha)
                | (Inr Directory, gh2) \<Rightarrow>
                    put_file (api1\<lparr>octokit := gh2\<rparr>) repo path content message None
                | (Inl error, gh2) \<Rightarrow>
                    if error_status error \<noteq> Some 404
                    then (Inl (update_failed error), api1\<lparr>octokit := gh2\<rparr>)
                    else put_file (api1\<lparr>octokit := gh2\<rparr>) repo path content message None))"

definition getFileContent ::
  "GithubAPI \<Rightarrow> string \<Rightarrow> string \<Rightarrow> (js_error + content option) \<times> GithubAPI" where
  "getFileContent api repo path =
     (case repos_getContent (octokit api) repo path of
        (Inr (File sha c), gh1) \<Rightarrow> (Inr (Some c), api\<lparr>octokit := gh1\<rparr>)
      | (Inr Directory, gh1) \<Rightarrow>
          (Inl (JsError ''Path points to a directory, not a file'' None), api\<lparr>octokit := gh1\<rparr>)
      | (Inl error, gh1) \<Rightarrow>
          if error_status error = Some 404 then (Inr None, api\<lparr>octokit := gh1\<rparr>)
          else (Inl error, api\<lparr>octokit := gh1\<rparr>))"

subsection \<open>GitManager: the activity queue\<close>

text \<open>
  The manager's state: the queue, a \<open>Map\<close> from project name to the array of its pending
  records, the in-flight flag, and whether the flush timer is set. The reference to the
  GithubAPI is passed beside it.
\<close>

record GitManager =
  activityQueue :: "(string, activity_log list) js_map"
  isProcessingQueue :: bool
  queueProcessInterval :: bool

definition new_GitManager :: GitManager where
  "new_GitManager = \<lparr> activityQueue = [], isProcessingQueue = False, queueProcessInterval = False \<rparr>"

definition REPO_NAME :: string where
  "REPO_NAME = ''activity-tracker''"

definition startQueueProcessor :: "GitManager \<Rightarrow> GitManager" where
  "startQueueProcessor gm = (if \<not> queueProcessInterval gm then gm\<lparr>queueProcessInterval := True\<rparr> else gm)"

definition logActivity :: "GitManager \<Rightarrow> activity_log \<Rightarrow> js_error option \<times> GitManager" where
  "logActivity gm activityLog =
     (let projectKey = project activityLog;
          queue1 = (if Map_get (activityQueue gm) projectKey = None
                    then Map_set projectKey [] (activityQueue gm)
                    else activityQueue gm);
          queue2 = (case Map_get queue1 projectKey of
                      Some activities \<Rightarrow> Map_set projectKey (activities @ [activityLog]) queue1
                    | None \<Rightarrow> queue1)
      in (None, startQueueProcessor (gm\<lparr>activityQueue := queue2\<rparr>)))"

record pending_update =
  upd_file :: string
  upd_content :: content
  upd_message :: string

definition log_file :: "string \<Rightarrow> string" where
  "log_file project_name = ''projects/'' @ project_name @ ''/activity-log.json''"

text \<open>The value of \<open>logs\<close> behind the inner \<open>try\<close> block: the parsed text of the remote log, or
  the empty array when the read threw or returned \<open>null\<close> or the empty string, or when
  \<open>JSON.parse\<close> threw.\<close>

definition read_logs :: "(js_error + content option) \<Rightarrow> json_value" where
  "read_logs r =
     (case r of
        Inl error \<Rightarrow> ParsedArray []
      | Inr None \<Rightarrow> ParsedArray []
      | Inr (Some existingContent) \<Rightarrow>
          if truthy existingContent
          then (case JSON_parse existingContent of
                  Inl error \<Rightarrow> ParsedArray []
                | Inr v \<Rightarrow> v)
          else ParsedArray [])"

text \<open>\<open>logs.push(...activities)\<close>: a value that is not an array has no \<open>push\<close>.\<close>

definition push_all :: "json_value \<Rightarrow> activity_log list \<Rightarrow> js_error + activity_log list" where
  "push_all logs activities =
     (case logs of
        ParsedArray records \<Rightarrow> Inr (records @ activities)
      | ParsedOther \<Rightarrow> Inl (JsError ''logs.push is not a function'' None))"

text \<open>
  The first loop of \<open>processActivityQueue\<close>, over the entries of the queue in iteration
  order. An error that leaves the loop leaves the whole \<open>try\<close> block; the manager and the
  remote side stay as they are at that moment.
\<close>

fun collect_updates ::
  "(string \<times> activity_log list) list \<Rightarrow> GitManager \<Rightarrow> GithubAPI \<Rightarrow> pending_update list
     \<Rightarrow> (js_error + pending_update list) \<times> GitManager \<times> GithubAPI" where
  "collect_updates [] gm api updates = (Inr updates, gm, api)"
| "collect_updates ((project_name, activities) # entries) gm api updates =
     (if activities = [] then collect_updates entries gm api updates
      else (case getFileContent api REPO_NAME (log_file project_name) of
              (r, api1) \<Rightarrow>
                (case push_all (read_logs r) activities of
                   Inl error \<Rightarrow> (Inl error, gm, api1)
                 | Inr logs \<Rightarrow>
                     collect_updates entries
                       (gm\<lparr>activityQueue := Map_set project_name [] (activityQueue gm)\<rparr>)
                       api1
                       (updates @
                        [\<lparr> upd_file = log_file project_name,
                           upd_content = JSON_stringify logs,
                           upd_message = ''Update activity log with '' @ show_nat (length activities)
                                           @ '' entries'' \<rparr>]))))"

text \<open>The second loop: the writes, one after the other, up to the first that throws. The
  pause of one second after each write changes no state and is left out.\<close>

fun execute_updates :: "pending_update list \<Rightarrow> GithubAPI \<Rightarrow> js_error option \<times> GithubAPI" where
  "execute_updates [] api = (None, api)"
| "execute_updates (update # updates) api =
     (case updateFile api REPO_NAME (upd_file update) (upd_content update) (upd_message update) of
        (Inl error, api1) \<Rightarrow> (Some error, api1)
      | (Inr updateResponse, api1) \<Rightarrow> execute_updates updates api1)"

text \<open>One timer tick of the queue processor. The third component is the error that reached
  the outer \<open>catch\<close> block, where it is written to the console and dropped. The tick is
  taken to run without another handler in between, so the in-flight flag is clear whenever
  a tick starts.\<close>

definition processActivityQueue ::
  "GitManager \<Rightarrow> GithubAPI \<Rightarrow> GitManager \<times> GithubAPI \<times> js_error option" where
  "processActivityQueue gm api =
     (if isProcessingQueue gm \<or> Map_size (activityQueue gm) = 0 then (gm, api, None)
      else let gm1 = gm\<lparr>isProcessingQueue := True\<rparr> in
        (case collect_updates (activityQueue gm1) gm1 api [] of
           (Inl error, gm2, api2) \<Rightarrow> (gm2\<lparr>isProcessingQueue := False\<rparr>, api2, Some error)
         | (Inr updates, gm2, api2) \<Rightarrow>
             (case execute_updates updates api2 of
                (error, api3) \<Rightarrow> (gm2\<lparr>isProcessingQueue := False\<rparr>, api3, error))))"

text \<open>\<open>ensureProfileReadme\<close>, with the text it generates as a parameter. The call of
  \<open>updateFile\<close> passes a fifth argument; \<open>updateFile\<close> declares four parameters and never
  reads another, so the argument has no effect and does not appear here.\<close>

definition ensureProfileReadme :: "GithubAPI \<Rightarrow> content \<Rightarrow> js_error option \<times> GithubAPI" where
  "ensureProfileReadme api updatedContent =
     (case getFileContent api (username api) ''README.md'' of
        (Inl error, api1) \<Rightarrow> (Some error, api1)
      | (Inr existingContent, api1) \<Rightarrow>
          if (case existingContent of None \<Rightarrow> True | Some c \<Rightarrow> \<not> truthy c \<or> c \<noteq> updatedContent)
          then (case updateFile api1 (username api1) ''README.md'' updatedContent
                       ''Update profile README with visualizations'' of
                  (Inl error, api2) \<Rightarrow> (Some error, api2)
                | (Inr updateResponse, api2) \<Rightarrow> (None, api2))
          else (None, api1))"

text \<open>The token that belongs to what is stored under a path: the SHA of a file, none for a
  directory or for nothing.\<close>

definition token_of :: "resource option \<Rightarrow> nat option" where
  "token_of r = (case r of Some (File sha c) \<Rightarrow> Some sha | Some Directory \<Rightarrow> None | None \<Rightarrow> None)"

text \<open>Two states of the remote side that differ at most in the pending transport faults.\<close>

definition same_store :: "GithubAPI \<Rightarrow> GithubAPI \<Rightarrow> bool" where
  "same_store api api1 =
     (username api1 = username api
      \<and> files (octokit api1) = files (octokit api)
      \<and> repos (octokit api1) = repos (octokit api)
      \<and> requests (octokit api1) = requests (octokit api)
      \<and> next_sha (octokit api1) = next_sha (octokit api)
      \<and> (\<exists>n. faults (octokit api1) = drop n (faults (octokit api))))"

text \<open>The queue after the first loop has passed an entry: a buffer with records is replaced
  by the empty array.\<close>

definition clear_entry ::
  "(string, activity_log list) js_map \<Rightarrow> string \<times> activity_log list \<Rightarrow> (string, activity_log list) js_map" where
  "clear_entry q entry = (if snd entry = [] then q else Map_set (fst entry) [] q)"

text \<open>The records of a project's remote log as the flush reads them when no request fails:
  those of a JSON array, none for text that is not JSON, for a directory or for nothing.\<close>

definition existing_records :: "GithubAPI \<Rightarrow> string \<Rightarrow> activity_log list" where
  "existing_records api project_name =
     (case lookup (octokit api) REPO_NAME (log_file project_name) of
        Some (File sha (JsonArray records)) \<Rightarrow> records
      | _ \<Rightarrow> [])"

definition update_for :: "GithubAPI \<Rightarrow> string \<times> activity_log list \<Rightarrow> pending_update" where
  "update_for api entry =
     \<lparr> upd_file = log_file (fst entry),
       upd_content = JsonArray (existing_records api (fst entry) @ snd entry),
       upd_message = ''Update activity log with '' @ show_nat (length (snd entry)) @ '' entries'' \<rparr>"

text \<open>Concrete inputs for runs of the queue: records of a project \<open>P\<close>, its log path, and a
  remote side whose repository already holds a log for \<open>P\<close> with one record.\<close>

definition sample_log :: "string \<Rightarrow> string \<Rightarrow> activity_log" where
  "sample_log file_name time =
     \<lparr> file = file_name, project = ''P'', timestamp = time,
       changes = \<lparr> functions_s = \<lparr> added = [], modified = [], removed = [] \<rparr>,
                   classes_s = \<lparr> added = [], modified = [], removed = [] \<rparr>,
                   imports_s = \<lparr> added = [], modified = [], removed = [] \<rparr>,
                   lineStats = \<lparr> addedLines = 0, modifiedLines = 0, totalLines = 1 \<rparr>,
                   type_s = [] \<rparr> \<rparr>"

definition queue_P :: GitManager where
  "queue_P = snd (logActivity (snd (logActivity new_GitManager (sample_log ''a.js'' ''t1'')))
                   (sample_log ''b.js'' ''t2''))"

definition remote_P :: "js_error option list \<Rightarrow> GithubAPI" where
  "remote_P fs =
     \<lparr> username = ''octo'',
       octokit = \<lparr> repos = {''octo'', ''activity-tracker''},
                   files = [(''activity-tracker'', ''projects/P/activity-log.json'') \<mapsto>
                              File 7 (JsonArray [sample_log ''old.js'' ''t0''])],
                   next_sha = 8,
                   faults = fs,
                   requests = [] \<rparr> \<rparr>"

text \<open>A queue with a record of a second project \<open>Q\<close>, enqueued before those of \<open>P\<close>.\<close>

definition queue_QP :: GitManager where
  "queue_QP = snd (logActivity (snd (logActivity (snd (logActivity new_GitManager
                  ((sample_log ''q.js'' ''t0'')\<lparr>project := ''Q''\<rparr>)))
                  (sample_log ''a.js'' ''t1''))) (sample_log ''b.js'' ''t2''))"

text \<open>The write request that \<open>updateFile\<close> sends for a pending update when no request fails.\<close>

definition request_for :: "GithubAPI \<Rightarrow> pending_update \<Rightarrow> put_request" where
  "request_for api u =
     \<lparr> req_repo = REPO_NAME, req_path = upd_file u, req_message = upd_message u,
       req_content = upd_content u,
       req_sha = token_of (lookup (octokit api) REPO_NAME (upd_file u)) \<rparr>"

text \<open>
  \<open>answered fs k\<close>: with the schedule \<open>fs\<close> of transport faults, request number \<open>k\<close> of
  those to come (counted from 0) goes through, so that the store answers it.
\<close>

definition answered :: "js_error option list \<Rightarrow> nat \<Rightarrow> bool" where
  "answered fs k = (case drop k fs of [] \<Rightarrow> True | f # rest \<Rightarrow> f = None)"

text \<open>A queue with the records of \<open>P\<close> first and a record of \<open>Q\<close> behind them, and a remote
  side that holds a log for \<open>Q\<close> as well, with the given text.\<close>

definition queue_PQ :: GitManager where
  "queue_PQ = snd (logActivity (snd (logActivity (snd (logActivity new_GitManager
                  (sample_log ''a.js'' ''t1''))) (sample_log ''b.js'' ''t2'')))
                  ((sample_log ''q.js'' ''t3'')\<lparr>project := ''Q''\<rparr>))"

definition remote_PQ :: "content \<Rightarrow> js_error option list \<Rightarrow> GithubAPI" where
  "remote_PQ log_Q fs =
     \<lparr> username = ''octo'',
       octokit = \<lparr> repos = {''octo'', ''activity-tracker''},
                   files = [(''activity-tracker'', ''projects/P/activity-log.json'') \<mapsto>
                              File 7 (JsonArray [sample_log ''old.js'' ''t0'']),
                            (''activity-tracker'', ''projects/Q/activity-log.json'') \<mapsto>
                              File 5 log_Q],
                   next_sha = 8,
                   faults = fs,
                   requests = [] \<rparr> \<rparr>"

section \<open>Line statistics\<close>

lemma length_split_newline: "length (split_newline s) = Suc (count_list s (CHR 0x0A))"
  by (induction s) (auto split: list.splits)

text \<open>
  C7. For every pair of contents, \<open>addedLines\<close> is the new line count minus the old one,
  \<open>modifiedLines\<close> is the absolute value of that difference (so it equals \<open>|addedLines|\<close>),
  and \<open>totalLines\<close> is the new line count, where the line count of a content is the number
  of its segments between line feeds, one more than its number of line feeds.
\<close>

theorem getLineChanges_stats:
  fixes oldContent newContent :: string
  defines "oldLineCount \<equiv> int (length (split_newline oldContent))"
      and "newLineCount \<equiv> int (length (split_newline newContent))"
      and "r \<equiv> getLineChanges oldContent newContent"
  shows "addedLines r = newLineCount - oldLineCount
       \<and> modifiedLines r = \<bar>newLineCount - oldLineCount\<bar>
       \<and> modifiedLines r = \<bar>addedLines r\<bar>
       \<and> totalLines r = newLineCount
       \<and> oldLineCount = 1 + int (count_list oldContent (CHR 0x0A))
       \<and> newLineCount = 1 + int (count_list newContent (CHR 0x0A))"
  unfolding oldLineCount_def newLineCount_def r_def
  by (simp add: getLineChanges_def Let_def length_split_newline)


section \<open>Function-name changes\<close>


section \<open>The content cache\<close>

lemma Map_keys_delete_hd:
  assumes "distinct (Map_keys m)" "Map_first_key m = Some k"
  shows "Map_keys (Map_delete k m) = tl (Map_keys m)"
  using assms
  by (cases m) (auto simp: Map_keys_def Map_delete_def Map_first_key_def AList.delete_keys)

lemma Map_keys_set_absent:
  "k \<notin> set (Map_keys m) \<Longrightarrow> Map_keys (Map_set k v m) = Map_keys m @ [k]"
  by (induction m) (auto simp: Map_keys_def Map_set_def)

lemma Map_keys_set_present:
  "k \<in> set (Map_keys m) \<Longrightarrow> Map_keys (Map_set k v m) = Map_keys m"
  by (induction m) (auto simp: Map_keys_def Map_set_def)

lemma Map_get_set: "Map_get (Map_set k v m) = (Map_get m)(k \<mapsto> v)"
  by (rule ext) (simp add: Map_get_def Map_set_def AList.update_conv')

lemma manage_keys:
  assumes "distinct (cache_keys t)" "0 < maxCachedFiles t"
  shows "cache_keys (managePreviousContent t k v) =
     (let ks = (if at_capacity t then tl (cache_keys t) else cache_keys t)
      in if k \<in> set ks then ks else ks @ [k])"
proof (cases "at_capacity t")
  case False
  then show ?thesis
    by (simp add: managePreviousContent_def cache_keys_def at_capacity_def Let_def
        Map_keys_set_absent Map_keys_set_present)
next
  case True
  with assms(2) obtain k0 v0 rest where m: "previousContent t = (k0, v0) # rest"
    by (cases "previousContent t") (auto simp: at_capacity_def Map_size_def)
  have fk: "Map_first_key (previousContent t) = Some k0"
    by (simp add: m Map_first_key_def)
  have "Map_keys (Map_delete k0 (previousContent t)) = tl (cache_keys t)"
    using Map_keys_delete_hd [OF _ fk] assms(1) by (simp add: cache_keys_def)
  with True fk show ?thesis
    using at_capacity_def
    by (simp add: managePreviousContent_def cache_keys_def Let_def
        Map_keys_set_absent Map_keys_set_present)
qed

lemma manage_config [simp]:
  "maxCachedFiles (managePreviousContent t k v) = maxCachedFiles t"
  "retryAttempts (managePreviousContent t k v) = retryAttempts t"
  "retryDelay (managePreviousContent t k v) = retryDelay t"
  "isTracking (managePreviousContent t k v) = isTracking t"
  by (simp_all add: managePreviousContent_def Let_def)

lemma manage_distinct:
  assumes "distinct (cache_keys t)" "0 < maxCachedFiles t"
  shows "distinct (cache_keys (managePreviousContent t k v))"
  using assms by (auto simp: manage_keys Let_def distinct_tl dest: list.set_sel(2))

lemma manage_size:
  assumes "distinct (cache_keys t)" "0 < maxCachedFiles t"
    and "Map_size (previousContent t) \<le> maxCachedFiles t"
  shows "Map_size (previousContent (managePreviousContent t k v)) \<le> maxCachedFiles t"
proof -
  have len: "Map_size (previousContent u) = int (length (cache_keys u))" for u
    by (simp add: Map_size_def cache_keys_def Map_keys_def)
  show ?thesis
    using assms unfolding len manage_keys [OF assms(1,2)]
    by (auto simp: Let_def at_capacity_def len)
qed

lemma capture_all_inv:
  assumes "distinct (cache_keys t)" "0 < maxCachedFiles t"
    and "Map_size (previousContent t) \<le> maxCachedFiles t"
  shows "distinct (cache_keys (capture_all kvs t))
       \<and> Map_size (previousContent (capture_all kvs t)) \<le> maxCachedFiles t
       \<and> maxCachedFiles (capture_all kvs t) = maxCachedFiles t"
  using assms
proof (induction kvs arbitrary: t)
  case Nil
  then show ?case by (simp add: capture_all_def)
next
  case (Cons kv kvs)
  obtain k v where kv: "kv = (k, v)" by (cases kv)
  have "capture_all (kv # kvs) t = capture_all kvs (managePreviousContent t k v)"
    by (simp add: capture_all_def kv)
  moreover note Cons.IH [of "managePreviousContent t k v"]
    manage_distinct [OF Cons.prems(1,2)] manage_size [OF Cons.prems]
  ultimately show ?case using Cons.prems(2) by simp
qed

lemma manage_absent:
  assumes "k \<notin> set (cache_keys t)" "distinct (cache_keys t)" "0 < maxCachedFiles t"
  shows "previousContent (managePreviousContent t k v) =
     (if at_capacity t then tl (previousContent t) else previousContent t) @ [(k, v)]"
proof -
  have app: "AList.update k v m = m @ [(k, v)]" if "k \<notin> fst ` set m" for m :: "(string \<times> string) list"
    using that by (induction m) auto
  show ?thesis
  proof (cases "at_capacity t")
    case False
    with assms(1) show ?thesis
      by (simp add: managePreviousContent_def Let_def at_capacity_def Map_set_def app
          cache_keys_def Map_keys_def)
  next
    case True
    with assms(3) obtain k0 v0 rest where m: "previousContent t = (k0, v0) # rest"
      by (cases "previousContent t") (auto simp: at_capacity_def Map_size_def)
    have "k0 \<notin> fst ` set rest" "k \<notin> fst ` set rest"
      using assms(1,2) by (auto simp: cache_keys_def Map_keys_def m)
    with True show ?thesis
      by (simp add: managePreviousContent_def Let_def at_capacity_def Map_set_def app m
          Map_first_key_def Map_delete_def)
  qed
qed

lemma capture_all_distinct:
  assumes "distinct (map fst kvs)" "previousContent t = []" "0 < maxCachedFiles t"
  shows "previousContent (capture_all kvs t) = drop (length kvs - nat (maxCachedFiles t)) kvs"
  using assms(1)
proof (induction kvs rule: rev_induct)
  case Nil
  then show ?case by (simp add: capture_all_def assms(2))
next
  case (snoc kv kvs)
  obtain k v where kv: "kv = (k, v)" by (cases kv)
  let ?u = "capture_all kvs t"
  have step: "capture_all (kvs @ [kv]) t = managePreviousContent ?u k v"
    by (simp add: capture_all_def kv)
  have pc: "previousContent ?u = drop (length kvs - nat (maxCachedFiles t)) kvs"
    using snoc by simp
  have inv: "distinct (cache_keys ?u)" "maxCachedFiles ?u = maxCachedFiles t"
    using capture_all_inv [of t kvs] assms(2,3) by (simp_all add: cache_keys_def Map_keys_def Map_size_def)
  have absent: "k \<notin> set (cache_keys ?u)"
    using snoc.prems by (auto simp: cache_keys_def Map_keys_def pc kv dest!: in_set_dropD)
  have cap: "at_capacity ?u \<longleftrightarrow> nat (maxCachedFiles t) \<le> length kvs"
    using assms(3) by (auto simp: at_capacity_def Map_size_def pc inv(2))
  show ?case
    unfolding step manage_absent [OF absent inv(1)] 
    using assms(3) by (auto simp: manage_absent [OF absent inv(1)] inv(2) cap pc kv tl_drop drop_Suc Suc_diff_le)
qed

lemmas cache_eval = capture_all_def managePreviousContent_def new_ActivityTracker_def or_default_def
  Map_size_def Map_first_key_def Map_delete_def Map_set_def Map_keys_def cache_keys_def at_capacity_def
  Map_get_def tracker2_def

text \<open>
  C3 (as amended). With a positive \<open>maxCachedFiles\<close>, a cache that starts empty never holds
  more than \<open>maxCachedFiles\<close> entries, whatever is captured. Capturing \<open>maxCachedFiles + 1\<close>
  distinct file identities leaves exactly the captured entries without the first: the
  first-inserted identity is absent and every later one is present. Re-writing a key that
  is present keeps the order in which the surviving keys will be evicted, unless the cache
  is at capacity and the key is the oldest one.
\<close>

theorem cache_bounded_insertion_order:
  assumes "0 < maxCachedFiles t" and "previousContent t = []"
  shows "Map_size (previousContent (capture_all kvs t)) \<le> maxCachedFiles t
       \<and> (distinct (map fst kvs) \<and> length kvs = nat (maxCachedFiles t) + 1 \<longrightarrow>
            previousContent (capture_all kvs t) = tl kvs
          \<and> fst (hd kvs) \<notin> set (cache_keys (capture_all kvs t))
          \<and> set (map fst (tl kvs)) \<subseteq> set (cache_keys (capture_all kvs t)))
       \<and> (k \<in> set (cache_keys (capture_all kvs t))
          \<and> \<not> (at_capacity (capture_all kvs t) \<and> hd (cache_keys (capture_all kvs t)) = k) \<longrightarrow>
            cache_keys (managePreviousContent (capture_all kvs t) k v) =
              (if at_capacity (capture_all kvs t) then tl (cache_keys (capture_all kvs t))
               else cache_keys (capture_all kvs t)))"
proof -
  let ?u = "capture_all kvs t"
  have inv: "distinct (cache_keys ?u)" "Map_size (previousContent ?u) \<le> maxCachedFiles t"
    "maxCachedFiles ?u = maxCachedFiles t"
    using capture_all_inv [of t kvs] assms
    by (simp_all add: cache_keys_def Map_keys_def Map_size_def)
  have fifo: "previousContent ?u = tl kvs \<and> fst (hd kvs) \<notin> set (cache_keys ?u)
       \<and> set (map fst (tl kvs)) \<subseteq> set (cache_keys ?u)"
    if d: "distinct (map fst kvs)" and l: "length kvs = nat (maxCachedFiles t) + 1"
  proof -
    have pc: "previousContent ?u = tl kvs"
      using capture_all_distinct [OF d assms(2,1)] l by (simp add: drop_Suc)
    moreover have "fst (hd kvs) \<notin> set (map fst (tl kvs))"
      using d l by (cases kvs) auto
    ultimately show ?thesis by (simp add: cache_keys_def Map_keys_def)
  qed
  have keep: "cache_keys (managePreviousContent ?u k v) =
        (if at_capacity ?u then tl (cache_keys ?u) else cache_keys ?u)"
    if k: "k \<in> set (cache_keys ?u)" and n: "\<not> (at_capacity ?u \<and> hd (cache_keys ?u) = k)"
  proof -
    have "k \<in> set (tl (cache_keys ?u))" if "at_capacity ?u"
      using k n that by (cases "cache_keys ?u") auto
    then show ?thesis
      using k inv assms(1) by (simp add: manage_keys Let_def)
  qed
  from inv(2) fifo keep show ?thesis by blast
qed

theorem cache_bounded_insertion_order_witness:
  "Map_size (previousContent (capture_all [(''a.js'', ''1''), (''b.js'', ''2''), (''c.js'', ''3'')] tracker2)) \<le> 2
   \<and> previousContent (capture_all [(''a.js'', ''1''), (''b.js'', ''2''), (''c.js'', ''3'')] tracker2)
       = [(''b.js'', ''2''), (''c.js'', ''3'')]
   \<and> cache_keys (managePreviousContent
        (capture_all [(''a.js'', ''1''), (''b.js'', ''2''), (''c.js'', ''3'')] tracker2) ''c.js'' ''4'') = [''c.js'']"
  using cache_bounded_insertion_order [of tracker2
      "[(''a.js'', ''1''), (''b.js'', ''2''), (''c.js'', ''3'')]" "''c.js''" "''4''"]
  by (simp add: cache_eval)

text \<open>
  C3 as stated fails: with room for two files, capture \<open>a.js\<close>, \<open>b.js\<close>, then \<open>a.js\<close> again.
  The cache is at capacity and \<open>a.js\<close> is its oldest key, so it is deleted and set anew:
  it now iterates behind \<open>b.js\<close>. Capturing \<open>c.js\<close> then evicts \<open>b.js\<close>, and the
  first-inserted \<open>a.js\<close> survives.
\<close>

theorem cache_rewrite_oldest_counterexample:
  "cache_keys (capture_all [(''a.js'', ''1''), (''b.js'', ''2'')] tracker2) = [''a.js'', ''b.js'']
   \<and> cache_keys (capture_all [(''a.js'', ''1''), (''b.js'', ''2''), (''a.js'', ''3'')] tracker2) = [''b.js'', ''a.js'']
   \<and> cache_keys (capture_all [(''a.js'', ''1''), (''b.js'', ''2''), (''a.js'', ''3''), (''c.js'', ''4'')] tracker2)
       = [''a.js'', ''c.js'']
   \<and> maxCachedFiles tracker2 = 2
   \<and> ''a.js'' \<in> set (cache_keys
         (capture_all [(''a.js'', ''1''), (''b.js'', ''2''), (''a.js'', ''3''), (''c.js'', ''4'')] tracker2))
   \<and> ''b.js'' \<notin> set (cache_keys
         (capture_all [(''a.js'', ''1''), (''b.js'', ''2''), (''a.js'', ''3''), (''c.js'', ''4'')] tracker2))"
  by (simp add: cache_eval)

text \<open>
  C10. When the cache is at capacity and a capture arrives for a file identity that is
  already cached, the oldest entry is deleted before the snapshot is set. If the captured
  file is not itself the oldest entry, the oldest file loses its baseline and the cache
  holds one entry less than its capacity.
\<close>

theorem capture_at_capacity_evicts:
  assumes "distinct (cache_keys t)"
    and "Map_size (previousContent t) = maxCachedFiles t"
    and "fileName doc \<in> set (cache_keys t)"
  shows "previousContent (snd (trackCodeChanges t doc)) =
           Map_set (fileName doc) (getText doc) (Map_delete (hd (cache_keys t)) (previousContent t))
       \<and> (fileName doc \<noteq> hd (cache_keys t) \<longrightarrow>
            Map_get (previousContent (snd (trackCodeChanges t doc))) (hd (cache_keys t)) = None
          \<and> Map_get (previousContent t) (hd (cache_keys t)) \<noteq> None
          \<and> Map_get (previousContent (snd (trackCodeChanges t doc))) (fileName doc) = Some (getText doc)
          \<and> Map_size (previousContent (snd (trackCodeChanges t doc))) = maxCachedFiles t - 1
          \<and> Map_size (previousContent (snd (trackCodeChanges t doc))) < maxCachedFiles t)"
proof -
  let ?k = "fileName doc" and ?v = "getText doc"
  let ?t' = "managePreviousContent t ?k ?v"
  have t': "snd (trackCodeChanges t doc) = ?t'"
    by (simp add: trackCodeChanges_def Let_def)
  from assms(3) obtain k0 v0 rest where m: "previousContent t = (k0, v0) # rest"
    by (cases "previousContent t") (auto simp: cache_keys_def Map_keys_def)
  have hd: "hd (cache_keys t) = k0" by (simp add: cache_keys_def Map_keys_def m)
  have pos: "0 < maxCachedFiles t" using assms(2) by (simp add: m Map_size_def)
  have cap: "at_capacity t" using assms(2) by (simp add: at_capacity_def)
  have k0: "k0 \<notin> fst ` set rest" using assms(1) by (simp add: cache_keys_def Map_keys_def m)
  have pc: "previousContent ?t' = Map_set ?k ?v (Map_delete k0 (previousContent t))"
    using assms(2) by (simp add: managePreviousContent_def Let_def m Map_first_key_def)
  have len: "Map_size (previousContent u) = int (length (cache_keys u))" for u
    by (simp add: Map_size_def cache_keys_def Map_keys_def)
  have keys: "cache_keys ?t' = (if ?k \<in> set (tl (cache_keys t)) then tl (cache_keys t) else tl (cache_keys t) @ [?k])"
    using manage_keys [OF assms(1) pos, of ?k ?v] cap by (simp add: Let_def)
  have other: "?k \<in> set (tl (cache_keys t))" if "?k \<noteq> k0"
    using assms(3) that by (auto simp: cache_keys_def Map_keys_def m)
  have gone: "Map_get (previousContent ?t') k0 = None" if "?k \<noteq> k0"
    using that k0 by (simp add: pc Map_get_def Map_set_def Map_delete_def AList.update_conv' AList.delete_conv' m map_of_eq_None_iff)
  have there: "Map_get (previousContent t) k0 \<noteq> None"
    by (simp add: Map_get_def m)
  have new: "Map_get (previousContent ?t') ?k = Some ?v"
    by (simp add: pc Map_get_def Map_set_def AList.update_conv')
  have size1: "Map_size (previousContent ?t') = maxCachedFiles t - 1" if "?k \<noteq> k0"
    using other [OF that] assms(2) unfolding len keys by (simp add: cache_keys_def Map_keys_def m)
  show ?thesis
    unfolding t' hd using pc gone there new size1 by simp
qed

theorem capture_at_capacity_evicts_witness:
  "previousContent (snd (trackCodeChanges
       (capture_all [(''a.js'', ''1''), (''b.js'', ''2'')] tracker2)
       \<lparr> fileName = ''b.js'', getText = ''3'', workspaceFolder = None, fsPath = ''/w/b.js'' \<rparr>))
     = [(''b.js'', ''3'')]"
  using capture_at_capacity_evicts [of "capture_all [(''a.js'', ''1''), (''b.js'', ''2'')] tracker2"
      "\<lparr> fileName = ''b.js'', getText = ''3'', workspaceFolder = None, fsPath = ''/w/b.js'' \<rparr>"]
  by (simp add: cache_eval)

section \<open>The periodic supervisor\<close>

lemmas sched_eval = new_Scheduler_def scheduler_stop_def handleError_def tick_def startPeriodicTracking_def
  supervisor_run_def Running_def Stopped_def Let_def

lemma step_stopped:
  assumes "Stopped s" "ev \<noteq> StartCalled"
  shows "supervisor_step (s, log) ev = (s\<lparr>retryCount := (if ev = StopCalled then 0 else retryCount s)\<rparr>, log)"
  using assms by (cases ev) (auto simp: sched_eval)

lemma foldl_stopped:
  assumes "Stopped s" "StartCalled \<notin> set evs"
  shows "Stopped (fst (foldl supervisor_step (s, log) evs)) \<and> snd (foldl supervisor_step (s, log) evs) = log"
  using assms
proof (induction evs arbitrary: s)
  case Nil
  then show ?case by simp
next
  case (Cons ev evs)
  have ne: "ev \<noteq> StartCalled" using Cons.prems(2) by auto
  have st: "Stopped (s\<lparr>retryCount := (if ev = StopCalled then 0 else retryCount s)\<rparr>)"
    using Cons.prems(1) by (simp add: Stopped_def)
  show ?case
    using Cons.IH [OF st] Cons.prems(2) by (simp add: step_stopped [OF Cons.prems(1) ne])
qed

lemma failures_below_limit:
  assumes "Running s" "retryCount s + int k < maxRetries s"
  shows "foldl supervisor_step (s, log) (replicate k (TimerElapsed False))
       = (s\<lparr>retryCount := retryCount s + int k\<rparr>, log @ replicate k TickFailed)"
  using assms
proof (induction k arbitrary: s log)
  case 0
  then show ?case by simp
next
  case (Suc k)
  let ?s1 = "s\<lparr>retryCount := retryCount s + 1\<rparr>"
  have one: "supervisor_step (s, log) (TimerElapsed False) = (?s1, log @ [TickFailed])"
    using Suc.prems by (simp add: sched_eval)
  have "Running ?s1" "retryCount ?s1 + int k < maxRetries ?s1"
    using Suc.prems by (simp_all add: Running_def)
  from Suc.IH [OF this, of "log @ [TickFailed]"] show ?case
    by (simp add: one add.assoc del: supervisor_step.simps)
qed


lemma foldl_stopped_same:
  assumes "Stopped s" "retryCount s = 0" "StartCalled \<notin> set evs"
  shows "foldl supervisor_step (s, log) evs = (s, log)"
  using assms(3)
proof (induction evs)
  case Nil
  then show ?case by simp
next
  case (Cons ev evs)
  then have "ev \<noteq> StartCalled" by auto
  from step_stopped [OF assms(1) this, of log] assms(2)
  have "supervisor_step (s, log) ev = (s, log)" by simp
  with Cons show ?case by (simp del: supervisor_step.simps)
qed

lemma failures_to_limit:
  assumes "Running r" "retryCount r < maxRetries r" "n = nat (maxRetries r - retryCount r)"
  shows "foldl supervisor_step (r, log) (replicate n (TimerElapsed False))
       = (r\<lparr>interval := False, isRunning := False, retryCount := 0\<rparr>,
          log @ replicate (n - 1) TickFailed @ [TickFatal ''Tracking failed after maximum retries''])"
proof -
  define k where "k = n - 1"
  have n: "n = Suc k" and k: "retryCount r + int k + 1 = maxRetries r"
    using assms(2,3) by (auto simp: k_def)
  let ?r1 = "r\<lparr>retryCount := retryCount r + int k\<rparr>"
  have first: "foldl supervisor_step (r, log) (replicate k (TimerElapsed False))
      = (?r1, log @ replicate k TickFailed)"
    using failures_below_limit [OF assms(1), of k log] k by simp
  have last: "supervisor_step (?r1, log @ replicate k TickFailed) (TimerElapsed False)
      = (r\<lparr>interval := False, isRunning := False, retryCount := 0\<rparr>,
         log @ replicate k TickFailed @ [TickFatal ''Tracking failed after maximum retries''])"
    using assms(1) k by (simp add: sched_eval)
  have "replicate n (TimerElapsed False) = replicate k (TimerElapsed False) @ [TimerElapsed False]"
    by (simp add: n replicate_append_same)
  then show ?thesis
    by (simp add: first last n del: supervisor_step.simps replicate.simps)
qed

text \<open>
  C4. A new scheduler is Stopped and \<open>startPeriodicTracking\<close> makes it Running. A Running
  scheduler stays Running across a successful tick, which resets the failure counter to
  zero, and across failing ticks that keep the counter below \<open>maxRetries\<close>, each of which
  adds one to it. The failing tick that brings the counter to \<open>maxRetries\<close> clears the
  timer, leaves the scheduler Stopped and throws; afterwards no tick runs and the scheduler
  stays Stopped whatever happens, short of a call of \<open>startPeriodicTracking\<close>. With the
  constructor's \<open>maxRetries = 3\<close>, three failing ticks after the start stop the scheduler,
  and the log holds three entries: a fourth tick never runs.
\<close>

theorem supervisor_circuit_breaker:
  assumes "Running r" and "retryCount r + int k < maxRetries r" and "StartCalled \<notin> set evs"
  shows "Stopped new_Scheduler \<and> Running (startPeriodicTracking new_Scheduler)
       \<and> supervisor_run [TimerElapsed True] r = (r\<lparr>retryCount := 0\<rparr>, [TickSucceeded])
       \<and> Running (r\<lparr>retryCount := 0\<rparr>)
       \<and> supervisor_run (replicate k (TimerElapsed False)) r
            = (r\<lparr>retryCount := retryCount r + int k\<rparr>, replicate k TickFailed)
       \<and> Running (r\<lparr>retryCount := retryCount r + int k\<rparr>)
       \<and> supervisor_run (replicate (nat (maxRetries r - retryCount r)) (TimerElapsed False) @ evs) r
            = (r\<lparr>interval := False, isRunning := False, retryCount := 0\<rparr>,
               replicate (nat (maxRetries r - retryCount r) - 1) TickFailed
                 @ [TickFatal ''Tracking failed after maximum retries''])
       \<and> Stopped (r\<lparr>interval := False, isRunning := False, retryCount := 0\<rparr>)
       \<and> supervisor_run (StartCalled # replicate 3 (TimerElapsed False) @ evs) new_Scheduler
            = (new_Scheduler, [TickFailed, TickFailed, TickFatal ''Tracking failed after maximum retries''])"
proof -
  let ?stopped = "r\<lparr>interval := False, isRunning := False, retryCount := 0\<rparr>"
  let ?n = "nat (maxRetries r - retryCount r)"
  have lt: "retryCount r < maxRetries r" using assms(2) by simp
  have a: "Stopped new_Scheduler \<and> Running (startPeriodicTracking new_Scheduler)"
    by (simp add: sched_eval)
  have b: "supervisor_run [TimerElapsed True] r = (r\<lparr>retryCount := 0\<rparr>, [TickSucceeded])"
    using assms(1) by (simp add: sched_eval)
  have c: "supervisor_run (replicate k (TimerElapsed False)) r
            = (r\<lparr>retryCount := retryCount r + int k\<rparr>, replicate k TickFailed)"
    using failures_below_limit [OF assms(1,2), of "[]"] by (simp add: supervisor_run_def)
  have st: "Stopped ?stopped" "retryCount ?stopped = 0" by (simp_all add: Stopped_def)
  have d: "supervisor_run (replicate ?n (TimerElapsed False) @ evs) r
            = (?stopped, replicate (?n - 1) TickFailed @ [TickFatal ''Tracking failed after maximum retries''])"
    unfolding supervisor_run_def foldl_append
    by (simp add: failures_to_limit [OF assms(1) lt refl] foldl_stopped_same [OF st assms(3)]
        del: supervisor_step.simps)
  let ?r0 = "startPeriodicTracking new_Scheduler"
  have r0: "Running ?r0" "retryCount ?r0 < maxRetries ?r0" "nat (maxRetries ?r0 - retryCount ?r0) = 3"
    "?r0\<lparr>interval := False, isRunning := False, retryCount := 0\<rparr> = new_Scheduler"
    by (simp_all add: sched_eval)
  have st0: "Stopped new_Scheduler" "retryCount new_Scheduler = 0" by (simp_all add: sched_eval)
  have "foldl supervisor_step (?r0, []) (replicate 3 (TimerElapsed False))
      = (new_Scheduler, [TickFailed, TickFailed, TickFatal ''Tracking failed after maximum retries''])"
    using failures_to_limit [OF r0(1,2), of 3 "[]"] r0(3,4)
    by (simp add: numeral_3_eq_3 del: supervisor_step.simps replicate.simps) (simp add: numeral_3_eq_3)
  moreover have "supervisor_step (new_Scheduler, []) StartCalled = (?r0, [])"
    by simp
  ultimately have e: "supervisor_run (StartCalled # replicate 3 (TimerElapsed False) @ evs) new_Scheduler
            = (new_Scheduler, [TickFailed, TickFailed, TickFatal ''Tracking failed after maximum retries''])"
    unfolding supervisor_run_def foldl_Cons foldl_append
    by (simp add: foldl_stopped_same [OF st0 assms(3)] del: supervisor_step.simps replicate.simps)
  show ?thesis
    using a b c d e st(1) assms(1) by (simp add: Running_def)
qed

theorem supervisor_circuit_breaker_witness:
  "supervisor_run [TimerElapsed True] (startPeriodicTracking new_Scheduler)
      = (startPeriodicTracking new_Scheduler, [TickSucceeded])
   \<and> supervisor_run [TimerElapsed False, TimerElapsed False] (startPeriodicTracking new_Scheduler)
      = ((startPeriodicTracking new_Scheduler)\<lparr>retryCount := 2\<rparr>, [TickFailed, TickFailed])
   \<and> supervisor_run [StartCalled, TimerElapsed False, TimerElapsed False, TimerElapsed False,
        TimerElapsed False, StopCalled, TimerElapsed True] new_Scheduler
      = (new_Scheduler, [TickFailed, TickFailed, TickFatal ''Tracking failed after maximum retries''])"
  using supervisor_circuit_breaker [of "startPeriodicTracking new_Scheduler" 2
      "[TimerElapsed False, StopCalled, TimerElapsed True]"]
  by (simp add: sched_eval numeral_3_eq_3 numeral_2_eq_2)

section \<open>Bounded retry\<close>







lemma managePreviousContent_config:
  "retryAttempts (managePreviousContent u k v) = retryAttempts u
   \<and> retryDelay (managePreviousContent u k v) = retryDelay u
   \<and> isTracking (managePreviousContent u k v) = isTracking u
   \<and> maxCachedFiles (managePreviousContent u k v) = maxCachedFiles u"
  by (simp add: managePreviousContent_def Let_def)

lemma tracker_at_0 [simp]: "tracker_at t doc 0 = t"
  by (simp add: tracker_at_def)

lemma tracker_at_Suc:
  "tracker_at t doc (Suc k) = managePreviousContent (tracker_at t doc k) (fileName doc) (getText doc)"
  by (simp add: tracker_at_def)

lemma tracker_at_config [simp]:
  "retryAttempts (tracker_at t doc k) = retryAttempts t"
  "retryDelay (tracker_at t doc k) = retryDelay t"
  by (induction k) (simp_all add: tracker_at_Suc managePreviousContent_config)


















lemma failed_attempts_cover:
  fixes outcome :: "nat \<Rightarrow> js_error option"
  assumes "0 \<le> n"
  shows "\<exists>f. int f \<le> n \<and> (\<forall>k<f. outcome k \<noteq> None) \<and> (int f < n \<longrightarrow> outcome f = None)"
proof (cases "\<exists>k. int k < n \<and> outcome k = None")
  case True
  define f where "f = (LEAST k. int k < n \<and> outcome k = None)"
  have f: "int f < n \<and> outcome f = None"
    unfolding f_def using True by (rule LeastI_ex)
  have "outcome k \<noteq> None" if "k < f" for k
  proof
    assume "outcome k = None"
    moreover have "int k < n" using that f by linarith
    ultimately have "f \<le> k" unfolding f_def by (intro Least_le) simp
    with that show False by simp
  qed
  with f show ?thesis by (intro exI [of _ f]) simp
next
  case False
  with assms show ?thesis by (intro exI [of _ "nat n"]) auto
qed

lemma record_at_timestamp [simp]: "timestamp (record_at now doc t k) = now k"
  by (simp add: record_at_def captured_record_def Let_def)

lemma unchanged_record_timestamp [simp]: "timestamp (unchanged_record doc time) = time"
  by (simp add: unchanged_record_def)









section \<open>The activity queue and the remote log\<close>

lemma next_fault_eq:
  "next_fault gh = ((case faults gh of [] \<Rightarrow> None | f # fs \<Rightarrow> f), gh\<lparr>faults := tl (faults gh)\<rparr>)"
  by (cases "faults gh") (simp_all add: next_fault_def)

lemma next_fault_sound: "faults gh = [] \<Longrightarrow> next_fault gh = (None, gh)"
  by (simp add: next_fault_def)

lemma repos_getContent_store:
  assumes "repos_getContent gh repo path = (r, gh1)"
  shows "gh1 = gh\<lparr>faults := tl (faults gh)\<rparr>"
  using assms
  by (auto simp: repos_getContent_def next_fault_eq lookup_def split: option.splits list.splits if_splits)

lemma repos_getContent_found:
  assumes "repos_getContent gh repo path = (Inr res, gh1)"
  shows "lookup gh repo path = Some res"
  using assms
  by (auto simp: repos_getContent_def next_fault_eq lookup_def split: option.splits list.splits if_splits)

lemma repos_getContent_sound:
  assumes "faults gh = []"
  shows "repos_getContent gh repo path =
     ((case lookup gh repo path of None \<Rightarrow> Inl not_found | Some res \<Rightarrow> Inr res), gh)"
  using assms
  by (auto simp: repos_getContent_def next_fault_sound lookup_def split: option.splits)

lemma checkRepoExists_store:
  assumes "checkRepoExists api repo = (r, api1)"
  shows "api1 = api\<lparr>octokit := (octokit api)\<lparr>faults := tl (faults (octokit api))\<rparr>\<rparr>"
  using assms
  by (auto simp: checkRepoExists_def repos_get_def next_fault_eq split: option.splits list.splits if_splits)

lemma checkRepoExists_sound:
  assumes "faults (octokit api) = []"
  shows "checkRepoExists api repo = (Inr (repo \<in> repos (octokit api)), api)"
  using assms
  by (simp add: checkRepoExists_def repos_get_def next_fault_sound not_found_def)

lemma getFileContent_store:
  assumes "getFileContent api repo path = (r, api1)"
  shows "api1 = api\<lparr>octokit := (octokit api)\<lparr>faults := tl (faults (octokit api))\<rparr>\<rparr>"
proof -
  obtain x gh1 where g: "repos_getContent (octokit api) repo path = (x, gh1)"
    by (cases "repos_getContent (octokit api) repo path")
  from assms repos_getContent_store [OF g] show ?thesis
    by (auto simp: getFileContent_def g split: sum.splits resource.splits if_splits)
qed

lemma getFileContent_sound:
  assumes "faults (octokit api) = []"
  shows "getFileContent api repo path =
     ((case lookup (octokit api) repo path of
         None \<Rightarrow> Inr None
       | Some (File sha c) \<Rightarrow> Inr (Some c)
       | Some Directory \<Rightarrow> Inl (JsError ''Path points to a directory, not a file'' None)), api)"
  using assms
  by (simp add: getFileContent_def repos_getContent_sound not_found_def
      split: option.splits resource.splits)

lemma getFileContent_fault:
  assumes "faults (octokit api) = Some e # fs" "error_status e \<noteq> Some 404"
  shows "getFileContent api repo path = (Inl e, api\<lparr>octokit := (octokit api)\<lparr>faults := fs\<rparr>\<rparr>)"
  using assms
  by (simp add: getFileContent_def repos_getContent_def next_fault_def)

text \<open>What a call of \<open>put_file\<close> does to the remote side.\<close>

lemma put_file_cases:
  assumes "put_file api repo path content message sha = (res, api1)"
  defines "req \<equiv> \<lparr> req_repo = repo, req_path = path, req_message = message,
                    req_content = content, req_sha = sha \<rparr>"
  shows "username api1 = username api
       \<and> repos (octokit api1) = repos (octokit api)
       \<and> requests (octokit api1) = requests (octokit api) @ [req]
       \<and> faults (octokit api1) = tl (faults (octokit api))
       \<and> (case res of
            Inl error \<Rightarrow> files (octokit api1) = files (octokit api)
                        \<and> next_sha (octokit api1) = next_sha (octokit api)
                        \<and> (\<exists>m. error_message error = ''Failed to update file: '' @ m)
          | Inr u \<Rightarrow> files (octokit api1) =
                       (files (octokit api))((repo, path) \<mapsto> File (next_sha (octokit api)) content)
                    \<and> sha = token_of (lookup (octokit api) repo path))"
  using assms(1) unfolding req_def
  by (auto simp: put_file_def repos_createOrUpdateFileContents_def next_fault_eq Let_def
      update_failed_def token_of_def lookup_def
      split: option.splits list.splits if_splits resource.splits)

lemma put_file_sound:
  assumes "faults (octokit api) = []" "repo \<in> repos (octokit api)"
    and "sha = token_of (lookup (octokit api) repo path)"
    and "lookup (octokit api) repo path \<noteq> Some Directory"
  shows "put_file api repo path content message sha =
     (Inr (), api\<lparr>octokit := (octokit api)
        \<lparr>requests := requests (octokit api) @
            [\<lparr> req_repo = repo, req_path = path, req_message = message,
               req_content = content, req_sha = sha \<rparr>],
         files := (files (octokit api))((repo, path) \<mapsto> File (next_sha (octokit api)) content),
         next_sha := next_sha (octokit api) + 1\<rparr>\<rparr>)"
  using assms
  by (auto simp: put_file_def repos_createOrUpdateFileContents_def next_fault_def Let_def
      token_of_def lookup_def split: option.splits resource.splits)


lemma lookup_faults [simp]: "lookup (gh\<lparr>faults := fs\<rparr>) repo path = lookup gh repo path"
  by (simp add: lookup_def)

lemma ex_drop_tl [simp]:
  "\<exists>n. tl xs = drop n xs"
  "\<exists>n. tl (tl xs) = drop n xs"
  "\<exists>n. tl (tl (tl xs)) = drop n xs"
proof -
  have "tl xs = drop 1 xs" "tl (tl xs) = drop 2 xs" "tl (tl (tl xs)) = drop 3 xs"
    by (simp_all add: drop_Suc numeral_2_eq_2 numeral_3_eq_3)
  then show "\<exists>n. tl xs = drop n xs" "\<exists>n. tl (tl xs) = drop n xs" "\<exists>n. tl (tl (tl xs)) = drop n xs"
    by blast+
qed

text \<open>What a call of \<open>updateFile\<close> does to the remote side, whatever the transport does.\<close>

lemma updateFile_cases:
  assumes "updateFile api repo path content message = (res, api1)"
  shows "username api1 = username api
       \<and> repos (octokit api1) = repos (octokit api)
       \<and> (\<exists>n. faults (octokit api1) = drop n (faults (octokit api)))
       \<and> (\<exists>new. requests (octokit api1) = requests (octokit api) @ new \<and> length new \<le> 1
            \<and> (\<forall>req \<in> set new.
                  req_repo req = repo \<and> req_path req = path \<and> req_content req = content
                \<and> req_message req = message
                \<and> (\<forall>sha. req_sha req = Some sha \<longrightarrow>
                      (\<exists>c. lookup (octokit api) repo path = Some (File sha c)))
                \<and> (faults (octokit api) = [] \<longrightarrow>
                      req_sha req = token_of (lookup (octokit api) repo path)))
            \<and> (res = Inr () \<longrightarrow> new \<noteq> []
                  \<and> req_sha (hd new) = token_of (lookup (octokit api) repo path)))
       \<and> (case res of
            Inl error \<Rightarrow> files (octokit api1) = files (octokit api)
                        \<and> next_sha (octokit api1) = next_sha (octokit api)
                        \<and> (\<exists>m. error_message error = ''Failed to update file: '' @ m)
          | Inr u \<Rightarrow> files (octokit api1) =
                       (files (octokit api))((repo, path) \<mapsto> File (next_sha (octokit api)) content))"
proof -
  let ?gh = "octokit api"
  obtain ex api_a where ce: "checkRepoExists api repo = (ex, api_a)"
    by (cases "checkRepoExists api repo")
  note a = checkRepoExists_store [OF ce]
  have drop1: "tl (faults ?gh) = drop 1 (faults ?gh)" by (simp add: drop_Suc)
  show ?thesis
  proof (cases ex)
    case (Inl error)
    with assms ce a show ?thesis
      by (auto simp: updateFile_def update_failed_def)
  next
    case (Inr repoExists)
    show ?thesis
    proof (cases repoExists)
      case False
      with assms ce a Inr show ?thesis
        by (auto simp: updateFile_def update_failed_def)
    next
      case True
      obtain rd gh2 where gc: "repos_getContent (octokit api_a) repo path = (rd, gh2)"
        by (cases "repos_getContent (octokit api_a) repo path")
      note b = repos_getContent_store [OF gc]
      let ?api_b = "api_a\<lparr>octokit := gh2\<rparr>"
      have fb: "faults (octokit ?api_b) = tl (tl (faults ?gh))"
        and sb: "files (octokit ?api_b) = files ?gh" "repos (octokit ?api_b) = repos ?gh"
          "requests (octokit ?api_b) = requests ?gh" "next_sha (octokit ?api_b) = next_sha ?gh"
          "username ?api_b = username api"
        and lb: "lookup (octokit ?api_b) repo path = lookup ?gh repo path"
        by (simp_all add: a b)
      have sound: "rd = (case lookup ?gh repo path of None \<Rightarrow> Inl not_found | Some r \<Rightarrow> Inr r)"
        if "faults ?gh = []"
        using gc that repos_getContent_sound [of "octokit api_a" repo path] by (simp add: a)
      have early: ?thesis if e: "rd = Inl error" "error_status error \<noteq> Some 404" for error
        using assms ce Inr True gc e a b
        by (auto simp: updateFile_def update_failed_def)
      have put: ?thesis
        if p: "put_file ?api_b repo path content message sha = (res, api1)"
          and tok: "\<forall>s. sha = Some s \<longrightarrow> (\<exists>c. lookup ?gh repo path = Some (File s c))"
          and tok0: "faults ?gh = [] \<longrightarrow> sha = token_of (lookup ?gh repo path)" for sha
      proof -
        note pc = put_file_cases [OF p, unfolded fb sb lb]
        have n: "\<exists>n. faults (octokit api1) = drop n (faults ?gh)"
          using pc by simp
        from pc n tok tok0 show ?thesis
          by (cases res) auto
      qed
      show ?thesis
      proof (cases rd)
        case (Inl error)
        show ?thesis
        proof (cases "error_status error = Some 404")
          case False
          with early Inl show ?thesis by blast
        next
          case st: True
          have "put_file ?api_b repo path content message None = (res, api1)"
            using assms ce Inr True gc Inl st by (simp add: updateFile_def)
          moreover have "faults ?gh = [] \<longrightarrow> None = token_of (lookup ?gh repo path)"
            using sound Inl by (auto simp: token_of_def split: option.splits)
          ultimately show ?thesis by (intro put) auto
        qed
      next
        case r: (Inr found)
        have lk: "lookup ?gh repo path = Some found"
          using repos_getContent_found [OF gc [unfolded r]] by (simp add: a)
        show ?thesis
        proof (cases found)
          case (File sha c)
          have "put_file ?api_b repo path content message (Some sha) = (res, api1)"
            using assms ce Inr True gc r File by (simp add: updateFile_def)
          then show ?thesis
            by (intro put) (auto simp: lk File token_of_def)
        next
          case Directory
          have "put_file ?api_b repo path content message None = (res, api1)"
            using assms ce Inr True gc r Directory by (simp add: updateFile_def)
          then show ?thesis
            by (intro put) (auto simp: lk Directory token_of_def)
        qed
      qed
    qed
  qed
qed


lemma same_store_refl [simp]: "same_store api api"
  by (auto simp: same_store_def intro: exI [of _ 0])

lemma same_store_trans: "same_store a b \<Longrightarrow> same_store b c \<Longrightarrow> same_store a c"
  by (auto simp: same_store_def)

lemma same_store_lookup: "same_store a b \<Longrightarrow> lookup (octokit b) repo path = lookup (octokit a) repo path"
  by (simp add: same_store_def lookup_def)

lemma getFileContent_same_store:
  "getFileContent api repo path = (r, api1) \<Longrightarrow> same_store api api1"
  by (drule getFileContent_store) (simp add: same_store_def)

lemma same_store_sound: "same_store a b \<Longrightarrow> faults (octokit a) = [] \<Longrightarrow> b = a"
  by (cases a, cases b, cases "octokit a", cases "octokit b") (auto simp: same_store_def)

lemma collect_updates_Inr:
  assumes "collect_updates es gm api ups = (Inr us, gm', api')"
  shows "gm' = gm\<lparr>activityQueue := foldl clear_entry (activityQueue gm) es\<rparr>
       \<and> map upd_file us = map upd_file ups @ map (\<lambda>e. log_file (fst e)) (filter (\<lambda>e. snd e \<noteq> []) es)
       \<and> same_store api api'"
  using assms
proof (induction es arbitrary: gm api ups)
  case Nil
  then show ?case by simp
next
  case (Cons entry es)
  obtain p a where entry: "entry = (p, a)" by (cases entry)
  show ?case
  proof (cases "a = []")
    case True
    with Cons show ?thesis by (simp add: entry clear_entry_def)
  next
    case False
    obtain r api1 where g: "getFileContent api REPO_NAME (log_file p) = (r, api1)"
      by (cases "getFileContent api REPO_NAME (log_file p)")
    from Cons.prems False obtain logs where logs: "push_all (read_logs r) a = Inr logs"
      by (auto simp: entry g split: sum.splits)
    have rec: "collect_updates es (gm\<lparr>activityQueue := Map_set p [] (activityQueue gm)\<rparr>) api1
        (ups @ [\<lparr> upd_file = log_file p, upd_content = JSON_stringify logs,
                  upd_message = ''Update activity log with '' @ show_nat (length a) @ '' entries'' \<rparr>])
        = (Inr us, gm', api')"
      using Cons.prems False by (simp add: entry g logs)
    from Cons.IH [OF rec] same_store_trans [OF getFileContent_same_store [OF g]] False
    show ?thesis by (simp add: entry clear_entry_def)
  qed
qed

lemma collect_updates_Inl:
  assumes "collect_updates es gm api ups = (Inl error, gm', api')"
  shows "error = JsError ''logs.push is not a function'' None \<and> same_store api api'"
  using assms
proof (induction es arbitrary: gm api ups)
  case Nil
  then show ?case by simp
next
  case (Cons entry es)
  obtain p a where entry: "entry = (p, a)" by (cases entry)
  show ?case
  proof (cases "a = []")
    case True
    with Cons show ?thesis by (simp add: entry)
  next
    case False
    obtain r api1 where g: "getFileContent api REPO_NAME (log_file p) = (r, api1)"
      by (cases "getFileContent api REPO_NAME (log_file p)")
    note st = getFileContent_same_store [OF g]
    show ?thesis
    proof (cases "push_all (read_logs r) a")
      case (Inl e)
      with Cons.prems False st show ?thesis
        by (auto simp: entry g push_all_def split: json_value.splits)
    next
      case (Inr logs)
      with Cons.prems False have "collect_updates es (gm\<lparr>activityQueue := Map_set p [] (activityQueue gm)\<rparr>) api1
        (ups @ [\<lparr> upd_file = log_file p, upd_content = JSON_stringify logs,
                  upd_message = ''Update activity log with '' @ show_nat (length a) @ '' entries'' \<rparr>])
        = (Inl error, gm', api')"
        by (simp add: entry g)
      from Cons.IH [OF this] same_store_trans [OF st] show ?thesis by blast
    qed
  qed
qed

lemma clear_entry_done:
  assumes "distinct (map fst (done @ es))"
  shows "foldl clear_entry (done @ es) es = done @ map (\<lambda>e. (fst e, [])) es"
  using assms
proof (induction es arbitrary: "done")
  case Nil
  then show ?case by simp
next
  case (Cons entry es)
  obtain p a where entry: "entry = (p, a)" by (cases entry)
  have upd: "AList.update p v (done @ (p, a) # es) = done @ (p, v) # es" for v
    using Cons.prems by (induction "done") (auto simp: entry)
  have step: "clear_entry (done @ entry # es) entry = (done @ [(p, [])]) @ es"
    by (cases "a = []") (simp_all add: clear_entry_def entry Map_set_def upd)
  have "distinct (map fst ((done @ [(p, [])]) @ es))"
    using Cons.prems by (simp add: entry)
  from Cons.IH [OF this] have "foldl clear_entry (clear_entry (done @ entry # es) entry) es
      = (done @ [(p, [])]) @ map (\<lambda>e. (fst e, [])) es"
    unfolding step .
  then show ?case by (simp add: entry)
qed

lemma clear_entry_all:
  "distinct (map fst q) \<Longrightarrow> foldl clear_entry q q = map (\<lambda>e. (fst e, [])) q"
  using clear_entry_done [of "[]" q] by simp


lemma read_logs_sound:
  assumes "faults (octokit api) = []"
    and "\<forall>sha. lookup (octokit api) REPO_NAME (log_file p) \<noteq> Some (File sha JsonOther)"
  shows "read_logs (fst (getFileContent api REPO_NAME (log_file p))) = ParsedArray (existing_records api p)"
  using assms
  by (auto simp: getFileContent_sound read_logs_def existing_records_def truthy_def JSON_parse_def
      split: option.splits resource.splits content.splits)

lemma collect_updates_sound:
  assumes "faults (octokit api) = []"
    and "\<forall>e \<in> set es. snd e \<noteq> [] \<longrightarrow>
           (\<forall>sha. lookup (octokit api) REPO_NAME (log_file (fst e)) \<noteq> Some (File sha JsonOther))"
  shows "collect_updates es gm api ups =
     (Inr (ups @ map (update_for api) (filter (\<lambda>e. snd e \<noteq> []) es)),
      gm\<lparr>activityQueue := foldl clear_entry (activityQueue gm) es\<rparr>, api)"
  using assms(2)
proof (induction es arbitrary: gm ups)
  case Nil
  then show ?case by simp
next
  case (Cons entry es)
  obtain p a where entry: "entry = (p, a)" by (cases entry)
  show ?case
  proof (cases "a = []")
    case True
    with Cons show ?thesis by (simp add: entry clear_entry_def)
  next
    case False
    have ok: "\<forall>sha. lookup (octokit api) REPO_NAME (log_file p) \<noteq> Some (File sha JsonOther)"
      using Cons.prems False by (simp add: entry)
    obtain r where g: "getFileContent api REPO_NAME (log_file p) = (r, api)"
      using getFileContent_sound [OF assms(1)] by blast
    have logs: "push_all (read_logs r) a = Inr (existing_records api p @ a)"
      using read_logs_sound [OF assms(1) ok] by (simp add: g push_all_def)
    from Cons.IH [of "gm\<lparr>activityQueue := Map_set p [] (activityQueue gm)\<rparr>"] Cons.prems False
    show ?thesis
      by (simp add: entry g logs clear_entry_def update_for_def JSON_stringify_def)
  qed
qed

lemma updateFile_sound:
  assumes "faults (octokit api) = []" "repo \<in> repos (octokit api)"
    and "lookup (octokit api) repo path \<noteq> Some Directory"
  shows "updateFile api repo path content message =
     (Inr (), api\<lparr>octokit := (octokit api)
        \<lparr>requests := requests (octokit api) @
            [\<lparr> req_repo = repo, req_path = path, req_message = message,
               req_content = content, req_sha = token_of (lookup (octokit api) repo path) \<rparr>],
         files := (files (octokit api))((repo, path) \<mapsto> File (next_sha (octokit api)) content),
         next_sha := next_sha (octokit api) + 1\<rparr>\<rparr>)"
proof -
  have api: "api\<lparr>octokit := octokit api\<rparr> = api" by simp
  show ?thesis
  proof (cases "lookup (octokit api) repo path")
    case None
    with assms show ?thesis
      by (simp add: updateFile_def checkRepoExists_sound repos_getContent_sound not_found_def
          api put_file_sound token_of_def)
  next
    case (Some res)
    with assms(3) obtain sha c where res: "res = File sha c" by (cases res) auto
    with assms Some show ?thesis
      by (simp add: updateFile_def checkRepoExists_sound repos_getContent_sound
          api put_file_sound token_of_def)
  qed
qed

lemma distinct_map_head:
  assumes "distinct (map f (x # xs))" "y \<in> set xs"
  shows "f y \<noteq> f x"
proof
  assume "f y = f x"
  then have "f x \<in> f ` set xs" using assms(2) by (metis imageI)
  with assms(1) show False by simp
qed

lemma lookup_write:
  "repo \<in> repos gh \<Longrightarrow>
   lookup (gh\<lparr>requests := rq, files := (files gh)((repo, p) \<mapsto> r), next_sha := n\<rparr>) repo path
     = (if path = p then Some r else lookup gh repo path)"
  by (simp add: lookup_def)

lemma execute_updates_sound:
  assumes "faults (octokit api) = []" "REPO_NAME \<in> repos (octokit api)"
    and "distinct (map upd_file us)"
    and "\<forall>u \<in> set us. lookup (octokit api) REPO_NAME (upd_file u) \<noteq> Some Directory"
  shows "\<exists>api'. execute_updates us api = (None, api')
       \<and> requests (octokit api') = requests (octokit api) @ map (request_for api) us
       \<and> (\<forall>u \<in> set us. \<exists>sha. lookup (octokit api') REPO_NAME (upd_file u) = Some (File sha (upd_content u)))
       \<and> (\<forall>path. path \<notin> upd_file ` set us \<longrightarrow>
             lookup (octokit api') REPO_NAME path = lookup (octokit api) REPO_NAME path)"
  using assms
proof (induction us arbitrary: api)
  case Nil
  then show ?case by simp
next
  case (Cons u us)
  let ?gh = "octokit api"
  let ?gh1 = "?gh
        \<lparr>requests := requests ?gh @ [request_for api u],
         files := (files ?gh)((REPO_NAME, upd_file u) \<mapsto> File (next_sha ?gh) (upd_content u)),
         next_sha := Suc (next_sha ?gh)\<rparr>"
  let ?api1 = "api\<lparr>octokit := ?gh1\<rparr>"
  have uf: "updateFile api REPO_NAME (upd_file u) (upd_content u) (upd_message u) = (Inr (), ?api1)"
    using updateFile_sound [OF Cons.prems(1,2), of "upd_file u"] Cons.prems(4)
    by (simp add: request_for_def)
  have lk1: "lookup ?gh1 REPO_NAME path =
      (if path = upd_file u then Some (File (next_sha ?gh) (upd_content u)) else lookup ?gh REPO_NAME path)" for path
    using Cons.prems(2) by (simp add: lookup_def)
  have lk: "lookup (octokit ?api1) REPO_NAME path =
      (if path = upd_file u then Some (File (next_sha ?gh) (upd_content u)) else lookup ?gh REPO_NAME path)" for path
    using lk1 by simp
  have other: "upd_file v \<noteq> upd_file u" if "v \<in> set us" for v
    using distinct_map_head [OF Cons.prems(3) that] .
  have pre: "faults (octokit ?api1) = []" "REPO_NAME \<in> repos (octokit ?api1)" "distinct (map upd_file us)"
    "\<forall>v \<in> set us. lookup (octokit ?api1) REPO_NAME (upd_file v) \<noteq> Some Directory"
    using Cons.prems other by (simp_all add: lk1)
  from Cons.IH [OF pre] obtain api' where ex: "execute_updates us ?api1 = (None, api')"
    and rq: "requests (octokit api') = requests (octokit ?api1) @ map (request_for ?api1) us"
    and wr: "\<forall>v \<in> set us. \<exists>sha. lookup (octokit api') REPO_NAME (upd_file v) = Some (File sha (upd_content v))"
    and fr: "\<forall>path. path \<notin> upd_file ` set us \<longrightarrow>
             lookup (octokit api') REPO_NAME path = lookup (octokit ?api1) REPO_NAME path"
    by blast
  have same_req: "map (request_for ?api1) us = map (request_for api) us"
    using other by (simp add: request_for_def lookup_write [OF Cons.prems(2)])
  have u_kept: "lookup (octokit api') REPO_NAME (upd_file u) = Some (File (next_sha ?gh) (upd_content u))"
    using fr Cons.prems(3) by (simp add: lookup_write [OF Cons.prems(2)])
  have "execute_updates (u # us) api = (None, api')"
    by (simp add: uf ex)
  moreover have "requests (octokit api') = requests ?gh @ map (request_for api) (u # us)"
    by (simp add: rq same_req)
  moreover have "\<forall>v \<in> set (u # us). \<exists>sha. lookup (octokit api') REPO_NAME (upd_file v) = Some (File sha (upd_content v))"
    using wr u_kept by auto
  moreover have "\<forall>path. path \<notin> upd_file ` set (u # us) \<longrightarrow>
             lookup (octokit api') REPO_NAME path = lookup ?gh REPO_NAME path"
    using fr by (simp add: lookup_write [OF Cons.prems(2)])
  ultimately show ?case by blast
qed

lemma execute_updates_failed:
  assumes "execute_updates us api = (Some error, api')" "distinct (map upd_file us)"
  shows "(\<exists>m. error_message error = ''Failed to update file: '' @ m)
       \<and> (\<exists>u \<in> set us. lookup (octokit api') REPO_NAME (upd_file u) = lookup (octokit api) REPO_NAME (upd_file u))"
  using assms
proof (induction us arbitrary: api)
  case Nil
  then show ?case by simp
next
  case (Cons u us)
  obtain res api1 where uf: "updateFile api REPO_NAME (upd_file u) (upd_content u) (upd_message u) = (res, api1)"
    by (cases "updateFile api REPO_NAME (upd_file u) (upd_content u) (upd_message u)")
  note c = updateFile_cases [OF uf]
  show ?case
  proof (cases res)
    case (Inl e)
    with Cons.prems uf have "error = e" "api' = api1" by simp_all
    with c Inl show ?thesis by (auto simp: lookup_def)
  next
    case (Inr x)
    with Cons.prems uf have rec: "execute_updates us api1 = (Some error, api')" by simp
    have lk: "lookup (octokit api1) REPO_NAME path = lookup (octokit api) REPO_NAME path"
      if "path \<noteq> upd_file u" for path
      using c Inr that by (auto simp: lookup_def)
    from Cons.IH [OF rec] Cons.prems(2) obtain v m where m: "error_message error = ''Failed to update file: '' @ m"
      and v: "v \<in> set us" "lookup (octokit api') REPO_NAME (upd_file v) = lookup (octokit api1) REPO_NAME (upd_file v)"
      by auto
    have "upd_file v \<noteq> upd_file u" using distinct_map_head [OF Cons.prems(2) v(1)] .
    with v lk have "lookup (octokit api') REPO_NAME (upd_file v) = lookup (octokit api) REPO_NAME (upd_file v)"
      by simp
    with m v(1) show ?thesis by auto
  qed
qed


lemma log_file_inj [simp]: "log_file p = log_file q \<longleftrightarrow> p = q"
  by (simp add: log_file_def)

lemma logActivity_appends:
  "fst (logActivity gm r) = None
   \<and> Map_get (activityQueue (snd (logActivity gm r))) (project r) =
       Some ((case Map_get (activityQueue gm) (project r) of None \<Rightarrow> [] | Some b \<Rightarrow> b) @ [r])"
  by (auto simp: logActivity_def Let_def Map_get_def Map_set_def startQueueProcessor_def
      AList.update_conv' split: option.splits)

lemma Map_get_cleared:
  assumes "(p, rs) \<in> set q"
  shows "Map_get (map (\<lambda>e. (fst e, [])) q) p = Some []"
proof -
  have "map_of (map (\<lambda>e. (fst e, [])) q) p = Some []"
    using assms by (induction q) auto
  then show ?thesis by (simp add: Map_get_def)
qed

lemma getFileContent_pass:
  assumes "faults (octokit api) = None # fs"
  shows "getFileContent api repo path =
     ((case lookup (octokit api) repo path of
         None \<Rightarrow> Inr None
       | Some (File sha c) \<Rightarrow> Inr (Some c)
       | Some Directory \<Rightarrow> Inl (JsError ''Path points to a directory, not a file'' None)),
      api\<lparr>octokit := (octokit api)\<lparr>faults := fs\<rparr>\<rparr>)"
  using assms
  by (simp add: getFileContent_def repos_getContent_def next_fault_def not_found_def
      split: option.splits resource.splits)

lemma collect_updates_append:
  "collect_updates (es1 @ es2) gm api ups =
     (case collect_updates es1 gm api ups of
        (Inl error, gm1, api1) \<Rightarrow> (Inl error, gm1, api1)
      | (Inr us, gm1, api1) \<Rightarrow> collect_updates es2 gm1 api1 us)"
proof (induction es1 arbitrary: gm api ups)
  case Nil
  then show ?case by simp
next
  case (Cons entry es1)
  obtain p a where entry: "entry = (p, a)" by (cases entry)
  show ?case
    by (cases "a = []") (auto simp: entry Cons.IH split: prod.splits sum.splits)
qed

lemma put_file_Inr_repo:
  assumes "put_file api repo path content message sha = (Inr u, api1)"
  shows "repo \<in> repos (octokit api)"
  using assms
  by (auto simp: put_file_def repos_createOrUpdateFileContents_def next_fault_eq Let_def
      split: option.splits list.splits if_splits resource.splits)

lemma updateFile_Inr_repo:
  assumes "updateFile api repo path content message = (Inr u, api1)"
  shows "repo \<in> repos (octokit api)"
proof -
  obtain ex api_a where ce: "checkRepoExists api repo = (ex, api_a)"
    by (cases "checkRepoExists api repo")
  note a = checkRepoExists_store [OF ce]
  obtain rd gh2 where gc: "repos_getContent (octokit api_a) repo path = (rd, gh2)"
    by (cases "repos_getContent (octokit api_a) repo path")
  note b = repos_getContent_store [OF gc]
  from assms ce gc obtain sha where "put_file (api_a\<lparr>octokit := gh2\<rparr>) repo path content message sha = (Inr u, api1)"
    by (auto simp: updateFile_def split: sum.splits if_splits resource.splits)
  from put_file_Inr_repo [OF this] show ?thesis
    by (simp add: a b)
qed


lemma execute_updates_frame:
  assumes "execute_updates us api = (err, api')"
  shows "repos (octokit api') = repos (octokit api)
       \<and> (\<forall>path. path \<notin> upd_file ` set us \<longrightarrow>
             files (octokit api') (REPO_NAME, path) = files (octokit api) (REPO_NAME, path))"
  using assms
proof (induction us arbitrary: api)
  case Nil
  then show ?case by simp
next
  case (Cons u us)
  obtain res api1 where uf: "updateFile api REPO_NAME (upd_file u) (upd_content u) (upd_message u) = (res, api1)"
    by (cases "updateFile api REPO_NAME (upd_file u) (upd_content u) (upd_message u)")
  note c = updateFile_cases [OF uf]
  show ?case
  proof (cases res)
    case (Inl e)
    with Cons.prems uf have "api' = api1" by simp
    with c Inl show ?thesis by simp
  next
    case (Inr x)
    with Cons.prems uf have rec: "execute_updates us api1 = (err, api')" by simp
    from Cons.IH [OF rec] c Inr show ?thesis by auto
  qed
qed

lemma collect_updates_faults:
  assumes "collect_updates es gm api ups = (Inr us, gm', api')"
  shows "faults (octokit api') = drop (length (filter (\<lambda>e. snd e \<noteq> []) es)) (faults (octokit api))
       \<and> (\<exists>more. us = ups @ more)"
  using assms
proof (induction es arbitrary: gm api ups)
  case Nil
  then show ?case by simp
next
  case (Cons entry es)
  obtain p a where entry: "entry = (p, a)" by (cases entry)
  show ?case
  proof (cases "a = []")
    case True
    with Cons show ?thesis by (simp add: entry)
  next
    case False
    obtain r api1 where g: "getFileContent api REPO_NAME (log_file p) = (r, api1)"
      by (cases "getFileContent api REPO_NAME (log_file p)")
    from Cons.prems False obtain logs where logs: "push_all (read_logs r) a = Inr logs"
      by (auto simp: entry g split: sum.splits)
    have rec: "collect_updates es (gm\<lparr>activityQueue := Map_set p [] (activityQueue gm)\<rparr>) api1
        (ups @ [\<lparr> upd_file = log_file p, upd_content = JSON_stringify logs,
                  upd_message = ''Update activity log with '' @ show_nat (length a) @ '' entries'' \<rparr>])
        = (Inr us, gm', api')"
      using Cons.prems False by (simp add: entry g logs)
    have f1: "faults (octokit api1) = tl (faults (octokit api))"
      using getFileContent_store [OF g] by simp
    from Cons.IH [OF rec] False show ?thesis
      by (auto simp: entry f1 drop_Suc)
  qed
qed

lemma getFileContent_answered:
  assumes "answered (faults (octokit api)) 0"
  shows "fst (getFileContent api repo path) =
     (case lookup (octokit api) repo path of
         None \<Rightarrow> Inr None
       | Some (File sha c) \<Rightarrow> Inr (Some c)
       | Some Directory \<Rightarrow> Inl (JsError ''Path points to a directory, not a file'' None))"
proof (cases "faults (octokit api)")
  case Nil
  then show ?thesis by (simp add: getFileContent_sound)
next
  case (Cons f fs)
  with assms have "faults (octokit api) = None # fs" by (simp add: answered_def)
  then show ?thesis by (simp add: getFileContent_pass)
qed



lemma execute_updates_each:
  assumes "execute_updates us api = (err, api')" "distinct (map upd_file us)"
  shows "\<forall>u \<in> set us.
           (\<exists>sha. lookup (octokit api') REPO_NAME (upd_file u) = Some (File sha (upd_content u)))
         \<or> (err \<noteq> None
            \<and> lookup (octokit api') REPO_NAME (upd_file u) = lookup (octokit api) REPO_NAME (upd_file u))"
  using assms
proof (induction us arbitrary: api)
  case Nil
  then show ?case by simp
next
  case (Cons u us)
  obtain res api1 where uf: "updateFile api REPO_NAME (upd_file u) (upd_content u) (upd_message u) = (res, api1)"
    by (cases "updateFile api REPO_NAME (upd_file u) (upd_content u) (upd_message u)")
  note c = updateFile_cases [OF uf]
  show ?case
  proof (cases res)
    case (Inl e)
    with Cons.prems uf have "err = Some e" "api' = api1" by simp_all
    with c Inl show ?thesis by (simp add: lookup_def)
  next
    case (Inr x)
    with Cons.prems uf have rec: "execute_updates us api1 = (err, api')" by simp
    have repo: "REPO_NAME \<in> repos (octokit api1)"
      using updateFile_Inr_repo [OF uf [unfolded Inr]] c by simp
    have f1: "files (octokit api1) (REPO_NAME, upd_file u) = Some (File (next_sha (octokit api)) (upd_content u))"
      using c Inr by simp
    note fr = execute_updates_frame [OF rec]
    have "upd_file u \<notin> upd_file ` set us" using Cons.prems(2) by simp
    with fr f1 repo have first: "lookup (octokit api') REPO_NAME (upd_file u) = Some (File (next_sha (octokit api)) (upd_content u))"
      by (simp add: lookup_def)
    have lk: "lookup (octokit api1) REPO_NAME (upd_file v) = lookup (octokit api) REPO_NAME (upd_file v)"
      if "v \<in> set us" for v
      using c Inr distinct_map_head [OF Cons.prems(2) that] by (simp add: lookup_def)
    have "\<forall>v \<in> set us.
           (\<exists>sha. lookup (octokit api') REPO_NAME (upd_file v) = Some (File sha (upd_content v)))
         \<or> (err \<noteq> None
            \<and> lookup (octokit api') REPO_NAME (upd_file v) = lookup (octokit api) REPO_NAME (upd_file v))"
      using Cons.IH [OF rec] Cons.prems(2) lk by simp
    with first show ?thesis by simp
  qed
qed

text \<open>
  C1. Take a tick of the queue processor with no flush in flight and a project \<open>p\<close> whose
  buffer holds the records \<open>rs\<close>, and let the read of \<open>p\<close>'s remote log be answered by the
  store: the first loop sends one read for every non-empty buffer, so this is the request
  whose number is the count of non-empty buffers before \<open>p\<close>. If the log held the array
  \<open>L\<close>, then after the tick it holds \<open>L @ rs\<close>, unless the tick ended with an error and left
  the log as it was; if the log was absent, it holds \<open>rs\<close>, unless the tick ended with an
  error and the log is still absent. So a tick that ends without error has rewritten the
  log to \<open>L @ rs\<close>, or to \<open>rs\<close>, and it has emptied the buffer. Nothing is assumed about the
  other projects, the repository or the other requests. \<open>logActivity\<close> never fails and
  puts a record behind those already buffered for its project, so \<open>rs\<close> is in the order of
  enqueueing.
\<close>

theorem flush_appends_in_order:
  assumes "\<not> isProcessingQueue gm"
    and "distinct (Map_keys (activityQueue gm))"
    and "activityQueue gm = before @ (p, rs) # rest" and "rs \<noteq> []"
    and "answered (faults (octokit api)) (length (filter (\<lambda>e. snd e \<noteq> []) before))"
    and "processActivityQueue gm api = (gm', api', err)"
  shows "(\<forall>sha L. lookup (octokit api) REPO_NAME (log_file p) = Some (File sha (JsonArray L)) \<longrightarrow>
            (\<exists>sha'. lookup (octokit api') REPO_NAME (log_file p) = Some (File sha' (JsonArray (L @ rs))))
          \<or> (err \<noteq> None \<and> lookup (octokit api') REPO_NAME (log_file p) = Some (File sha (JsonArray L))))
       \<and> (lookup (octokit api) REPO_NAME (log_file p) = None \<longrightarrow>
            (\<exists>sha'. lookup (octokit api') REPO_NAME (log_file p) = Some (File sha' (JsonArray rs)))
          \<or> (err \<noteq> None \<and> lookup (octokit api') REPO_NAME (log_file p) = None))
       \<and> (err = None \<longrightarrow> Map_get (activityQueue gm') p = Some [])
       \<and> fst (logActivity gm r) = None
       \<and> Map_get (activityQueue (snd (logActivity gm r))) (project r) =
           Some ((case Map_get (activityQueue gm) (project r) of None \<Rightarrow> [] | Some b \<Rightarrow> b) @ [r])"
proof -
  let ?q = "activityQueue gm"
  let ?ne = "\<lambda>e::string \<times> activity_log list. snd e \<noteq> []"
  let ?gm1 = "gm\<lparr>isProcessingQueue := True\<rparr>"
  let ?msg = "''Update activity log with '' @ show_nat (length rs) @ '' entries''"
  let ?P = "\<lambda>L. (\<exists>sha'. lookup (octokit api') REPO_NAME (log_file p) = Some (File sha' (JsonArray (L @ rs))))
          \<or> (err \<noteq> None \<and> lookup (octokit api') REPO_NAME (log_file p) = lookup (octokit api) REPO_NAME (log_file p))"
  have size: "Map_size ?q \<noteq> 0" by (simp add: assms(3) Map_size_def)
  obtain res gm2 api2 where col: "collect_updates ?q ?gm1 api [] = (res, gm2, api2)"
    by (metis prod_cases3)
  have main: "(err = None \<longrightarrow> Map_get (activityQueue gm') p = Some [])
      \<and> (\<forall>L. read_logs (fst (getFileContent
                 (api\<lparr>octokit := (octokit api)\<lparr>faults := drop (length (filter ?ne before)) (faults (octokit api))\<rparr>\<rparr>)
                 REPO_NAME (log_file p))) = ParsedArray L \<longrightarrow> ?P L)"
  proof (cases res)
    case (Inl error)
    with assms(1,6) size col have e: "err = Some error" "api' = api2"
      by (simp_all add: processActivityQueue_def)
    have "same_store api api2" using collect_updates_Inl [OF col [unfolded Inl]] by simp
    from same_store_lookup [OF this] e show ?thesis by simp
  next
    case (Inr us)
    obtain err0 api3 where ex0: "execute_updates us api2 = (err0, api3)"
      by (cases "execute_updates us api2")
    with assms(1,6) size col Inr have ex: "execute_updates us api2 = (err, api')"
      and gm': "gm' = gm2\<lparr>isProcessingQueue := False\<rparr>"
      by (simp_all add: processActivityQueue_def)
    note k = collect_updates_Inr [OF col [unfolded Inr]]
    have "activityQueue gm' = map (\<lambda>e. (fst e, [])) ?q"
      using k clear_entry_all [of ?q] assms(2) by (simp add: gm' Map_keys_def)
    moreover have "(p, rs) \<in> set ?q" by (simp add: assms(3))
    ultimately have q: "Map_get (activityQueue gm') p = Some []"
      using Map_get_cleared by simp
    have files: "map upd_file us = map log_file (map fst (filter ?ne ?q))"
      using k by (simp add: comp_def)
    have "distinct (map fst (filter ?ne ?q))"
      using assms(2) by (simp add: Map_keys_def distinct_map_filter)
    then have "distinct (map log_file (map fst (filter ?ne ?q)))"
      by (subst distinct_map) (simp add: inj_on_def)
    then have d: "distinct (map upd_file us)"
      unfolding files .
    note each = execute_updates_each [OF ex d]
    have lk2: "lookup (octokit api2) REPO_NAME path = lookup (octokit api) REPO_NAME path" for path
      using same_store_lookup k by simp
    obtain r1 g1 a1 where c1: "collect_updates before ?gm1 api [] = (r1, g1, a1)"
      by (metis prod_cases3)
    from col [unfolded Inr assms(3) collect_updates_append c1]
    obtain us1 where r1: "r1 = Inr us1"
      and c2: "collect_updates ((p, rs) # rest) g1 a1 us1 = (Inr us, gm2, api2)"
      by (cases r1) auto
    have st: "same_store api a1"
      using collect_updates_Inr [OF c1 [unfolded r1]] by simp
    have fa: "faults (octokit a1) = drop (length (filter ?ne before)) (faults (octokit api))"
      using collect_updates_faults [OF c1 [unfolded r1]] by simp
    have a1: "a1 = api\<lparr>octokit := (octokit api)\<lparr>faults := drop (length (filter ?ne before)) (faults (octokit api))\<rparr>\<rparr>"
      using st fa by (cases a1, cases api, cases "octokit a1", cases "octokit api") (simp add: same_store_def)
    obtain rd a2 where g: "getFileContent a1 REPO_NAME (log_file p) = (rd, a2)"
      by (cases "getFileContent a1 REPO_NAME (log_file p)")
    have "?P L" if "read_logs rd = ParsedArray L" for L
    proof -
      have "collect_updates rest (g1\<lparr>activityQueue := Map_set p [] (activityQueue g1)\<rparr>) a2
          (us1 @ [\<lparr> upd_file = log_file p, upd_content = JsonArray (L @ rs), upd_message = ?msg \<rparr>])
          = (Inr us, gm2, api2)"
        using c2 assms(4) that by (simp add: g push_all_def JSON_stringify_def)
      from collect_updates_faults [OF this]
      have "\<lparr> upd_file = log_file p, upd_content = JsonArray (L @ rs), upd_message = ?msg \<rparr> \<in> set us"
        by auto
      from each [rule_format, OF this] show ?thesis by (simp add: lk2)
    qed
    with q g show ?thesis by (simp add: a1 [symmetric])
  qed
  let ?a = "api\<lparr>octokit := (octokit api)\<lparr>faults := drop (length (filter ?ne before)) (faults (octokit api))\<rparr>\<rparr>"
  have ans: "answered (faults (octokit ?a)) 0"
    using assms(5) by (simp add: answered_def)
  have rd: "fst (getFileContent ?a REPO_NAME (log_file p)) =
       (case lookup (octokit api) REPO_NAME (log_file p) of
         None \<Rightarrow> Inr None
       | Some (File sha c) \<Rightarrow> Inr (Some c)
       | Some Directory \<Rightarrow> Inl (JsError ''Path points to a directory, not a file'' None))"
    using getFileContent_answered [OF ans, of REPO_NAME "log_file p"] by simp
  have a: "(\<exists>sha'. lookup (octokit api') REPO_NAME (log_file p) = Some (File sha' (JsonArray (L @ rs))))
          \<or> (err \<noteq> None \<and> lookup (octokit api') REPO_NAME (log_file p) = Some (File sha (JsonArray L)))"
    if "lookup (octokit api) REPO_NAME (log_file p) = Some (File sha (JsonArray L))" for sha L
  proof -
    have "read_logs (fst (getFileContent ?a REPO_NAME (log_file p))) = ParsedArray L"
      by (simp add: rd that read_logs_def truthy_def JSON_parse_def)
    with main have "?P L" by blast
    then show ?thesis by (simp add: that)
  qed
  have b: "(\<exists>sha'. lookup (octokit api') REPO_NAME (log_file p) = Some (File sha' (JsonArray rs)))
          \<or> (err \<noteq> None \<and> lookup (octokit api') REPO_NAME (log_file p) = None)"
    if "lookup (octokit api) REPO_NAME (log_file p) = None"
  proof -
    have "read_logs (fst (getFileContent ?a REPO_NAME (log_file p))) = ParsedArray []"
      by (simp add: rd that read_logs_def)
    with main have "?P []" by blast
    then show ?thesis by (simp add: that)
  qed
  from main a b logActivity_appends [of gm r] show ?thesis by blast
qed

lemmas queue_eval = queue_P_def remote_P_def logActivity_def new_GitManager_def sample_log_def
  startQueueProcessor_def Map_get_def Map_set_def Map_keys_def Map_size_def REPO_NAME_def log_file_def
  lookup_def Let_def

lemmas flush_eval = processActivityQueue_def collect_updates.simps execute_updates.simps
  getFileContent_def repos_getContent_def repos_get_def next_fault_def read_logs_def push_all_def
  truthy_def JSON_parse_def JSON_stringify_def updateFile_def checkRepoExists_def put_file_def
  repos_createOrUpdateFileContents_def update_failed_def not_found_def token_of_def queue_eval

theorem flush_appends_in_order_witness:
  "\<not> isProcessingQueue queue_QP
   \<and> activityQueue queue_QP =
      [(''Q'', [(sample_log ''q.js'' ''t0'')\<lparr>project := ''Q''\<rparr>]),
       (''P'', [sample_log ''a.js'' ''t1'', sample_log ''b.js'' ''t2''])]
   \<and> lookup (octokit (remote_PQ (PlainText ''<html>'') [])) REPO_NAME (log_file ''P'') =
        Some (File 7 (JsonArray [sample_log ''old.js'' ''t0'']))
   \<and> lookup (octokit (remote_PQ (PlainText ''<html>'') [])) REPO_NAME (log_file ''Q'') =
        Some (File 5 (PlainText ''<html>''))
   \<and> lookup (octokit (remote_P [])) REPO_NAME (log_file ''Q'') = None
   \<and> (case processActivityQueue queue_QP (remote_PQ (PlainText ''<html>'') []) of
        (gm', api', err) \<Rightarrow>
          err = None
        \<and> Map_get (activityQueue gm') ''P'' = Some []
        \<and> (\<exists>sha'. lookup (octokit api') REPO_NAME (log_file ''P'') =
              Some (File sha' (JsonArray [sample_log ''old.js'' ''t0'', sample_log ''a.js'' ''t1'',
                                          sample_log ''b.js'' ''t2'']))))
   \<and> (case processActivityQueue queue_QP (remote_P []) of
        (gm', api', err) \<Rightarrow>
          err = None
        \<and> Map_get (activityQueue gm') ''Q'' = Some []
        \<and> (\<exists>sha'. lookup (octokit api') REPO_NAME (log_file ''Q'') =
              Some (File sha' (JsonArray [(sample_log ''q.js'' ''t0'')\<lparr>project := ''Q''\<rparr>]))))"
proof -
  let ?rs = "[sample_log ''a.js'' ''t1'', sample_log ''b.js'' ''t2'']"
  let ?qs = "[(sample_log ''q.js'' ''t0'')\<lparr>project := ''Q''\<rparr>]"
  let ?api = "remote_PQ (PlainText ''<html>'') []"
  have q: "activityQueue queue_QP = [(''Q'', ?qs)] @ (''P'', ?rs) # []"
    and q0: "activityQueue queue_QP = [] @ (''Q'', ?qs) # [(''P'', ?rs)]"
    and n: "\<not> isProcessingQueue queue_QP"
    by (simp_all add: queue_QP_def queue_eval)
  have d: "distinct (Map_keys (activityQueue queue_QP))"
    by (simp add: q Map_keys_def)
  have l: "lookup (octokit ?api) REPO_NAME (log_file ''P'') =
        Some (File 7 (JsonArray [sample_log ''old.js'' ''t0'']))"
    "lookup (octokit ?api) REPO_NAME (log_file ''Q'') = Some (File 5 (PlainText ''<html>''))"
    "lookup (octokit (remote_P [])) REPO_NAME (log_file ''Q'') = None"
    by (simp_all add: remote_PQ_def queue_eval)
  have h: "?rs \<noteq> []" "?qs \<noteq> []"
    "answered (faults (octokit ?api)) (length (filter (\<lambda>e. snd e \<noteq> []) [(''Q'', ?qs)]))"
    "answered (faults (octokit (remote_P []))) (length (filter (\<lambda>e. snd e \<noteq> []) ([] :: (string \<times> activity_log list) list)))"
    by (simp_all add: answered_def remote_PQ_def remote_P_def)
  obtain gm' api' err where run: "processActivityQueue queue_QP ?api = (gm', api', err)"
    by (metis prod_cases3)
  obtain gm2 api2 err2 where run2: "processActivityQueue queue_QP (remote_P []) = (gm2, api2, err2)"
    by (metis prod_cases3)
  have e: "err = None"
    using run [symmetric] by (simp add: remote_PQ_def flush_eval queue_QP_def)
  have e2: "err2 = None"
    using run2 [symmetric] by (simp add: flush_eval queue_QP_def)
  from flush_appends_in_order [OF n d q h(1,3) run] flush_appends_in_order [OF n d q0 h(2,4) run2]
    l q n e e2
  show ?thesis
    by (simp add: run run2)
qed

text \<open>
  Without these conditions the log is not rewritten in this way. With the records of \<open>P\<close>
  and of \<open>Q\<close> pending and the log of \<open>Q\<close> holding JSON that is not an array, \<open>logs.push\<close>
  throws for \<open>Q\<close> behind the inner \<open>try\<close> block: the tick ends with that error, the buffer of
  \<open>P\<close> is empty, no write has been sent and the log of \<open>P\<close> is as it was. And when the read
  of the log of \<open>P\<close> fails with status 500, the tick ends without error and the log holds
  the buffered records only.
\<close>

theorem flush_aborted_counterexample:
  "\<not> isProcessingQueue queue_PQ
   \<and> activityQueue queue_PQ =
      [(''P'', [sample_log ''a.js'' ''t1'', sample_log ''b.js'' ''t2'']),
       (''Q'', [(sample_log ''q.js'' ''t3'')\<lparr>project := ''Q''\<rparr>])]
   \<and> lookup (octokit (remote_PQ JsonOther [])) REPO_NAME (log_file ''P'') =
        Some (File 7 (JsonArray [sample_log ''old.js'' ''t0'']))
   \<and> processActivityQueue queue_PQ (remote_PQ JsonOther []) =
        (queue_PQ\<lparr>activityQueue :=
            [(''P'', []), (''Q'', [(sample_log ''q.js'' ''t3'')\<lparr>project := ''Q''\<rparr>])]\<rparr>,
         remote_PQ JsonOther [],
         Some (JsError ''logs.push is not a function'' None))
   \<and> requests (octokit (remote_PQ JsonOther [])) = []
   \<and> lookup (octokit (remote_P [Some (JsError ''Server Error'' (Some 500))])) REPO_NAME (log_file ''P'') =
        Some (File 7 (JsonArray [sample_log ''old.js'' ''t0'']))
   \<and> snd (snd (processActivityQueue queue_P (remote_P [Some (JsError ''Server Error'' (Some 500))]))) = None
   \<and> lookup (octokit (fst (snd (processActivityQueue queue_P
            (remote_P [Some (JsError ''Server Error'' (Some 500))]))))) REPO_NAME (log_file ''P'') =
        Some (File 8 (JsonArray [sample_log ''a.js'' ''t1'', sample_log ''b.js'' ''t2'']))"
  by (simp add: queue_PQ_def remote_PQ_def flush_eval)

lemma collect_updates_idle:
  "\<forall>e \<in> set es. snd e = [] \<Longrightarrow> collect_updates es gm api ups = (Inr ups, gm, api)"
  by (induction es) auto

text \<open>
  C6. Take a tick of the queue processor with no flush in flight. Whenever it sends a write
  request at all, every buffer has been emptied before. When it ends with the error of a
  failed write, every buffer is empty, at least one project that had pending records has
  its remote log exactly as before the flush (its records are in neither place), and the
  next tick finds nothing to do: it sends no request and changes nothing, so the failed
  write is never repeated.
\<close>

theorem flush_discards_on_failed_write:
  assumes "\<not> isProcessingQueue gm"
    and "distinct (Map_keys (activityQueue gm))"
    and "processActivityQueue gm api = (gm', api', err)"
  shows "(requests (octokit api') \<noteq> requests (octokit api) \<longrightarrow>
            gm' = gm\<lparr>activityQueue := map (\<lambda>e. (fst e, [])) (activityQueue gm)\<rparr>)
       \<and> (\<forall>error m. err = Some error \<and> error_message error = ''Failed to update file: '' @ m \<longrightarrow>
            gm' = gm\<lparr>activityQueue := map (\<lambda>e. (fst e, [])) (activityQueue gm)\<rparr>
          \<and> (\<exists>e \<in> set (activityQueue gm). snd e \<noteq> []
                \<and> Map_get (activityQueue gm') (fst e) = Some []
                \<and> lookup (octokit api') REPO_NAME (log_file (fst e)) =
                    lookup (octokit api) REPO_NAME (log_file (fst e)))
          \<and> (\<forall>api2. processActivityQueue gm' api2 = (gm', api2, None)))"
proof -
  let ?q = "activityQueue gm"
  let ?gm1 = "gm\<lparr>isProcessingQueue := True\<rparr>"
  let ?cleared = "gm\<lparr>activityQueue := map (\<lambda>e. (fst e, [])) ?q\<rparr>"
  show ?thesis
  proof (cases "Map_size ?q = 0")
    case True
    with assms(3) show ?thesis by (simp add: processActivityQueue_def)
  next
    case False
    obtain r gm2 api2 where col: "collect_updates ?q ?gm1 api [] = (r, gm2, api2)"
      by (metis prod_cases3)
    show ?thesis
    proof (cases r)
      case (Inl error)
      from collect_updates_Inl [OF col [unfolded Inl]]
      have e: "error = JsError ''logs.push is not a function'' None" and st: "same_store api api2"
        by simp_all
      from assms(1,3) False col Inl have "api' = api2" "err = Some error"
        by (simp_all add: processActivityQueue_def)
      with e st show ?thesis by (auto simp: same_store_def)
    next
      case (Inr us)
      from collect_updates_Inr [OF col [unfolded Inr]]
      have gm2: "gm2 = ?gm1\<lparr>activityQueue := map (\<lambda>e. (fst e, [])) ?q\<rparr>"
        and files: "map upd_file us = map (\<lambda>e. log_file (fst e)) (filter (\<lambda>e. snd e \<noteq> []) ?q)"
        and st: "same_store api api2"
        using clear_entry_all [of ?q] assms(2) by (simp_all add: Map_keys_def)
      obtain e3 api3 where ex: "execute_updates us api2 = (e3, api3)"
        by (cases "execute_updates us api2")
      have reset: "gm\<lparr>activityQueue := X, isProcessingQueue := False\<rparr> = gm\<lparr>activityQueue := X\<rparr>" for X
        using assms(1) by (cases gm) simp
      from assms(1,3) False col Inr ex have "gm' = ?cleared \<and> api' = api3 \<and> err = e3"
        by (auto simp: processActivityQueue_def gm2 reset)
      then have res: "gm' = ?cleared" "api' = api3" "err = e3"
        by simp_all
      have lost: "\<exists>e \<in> set ?q. snd e \<noteq> []
                \<and> Map_get (activityQueue gm') (fst e) = Some []
                \<and> lookup (octokit api') REPO_NAME (log_file (fst e)) =
                    lookup (octokit api) REPO_NAME (log_file (fst e))"
        if "err = Some error" for error
      proof -
        have "distinct (map fst (filter (\<lambda>e. snd e \<noteq> []) ?q))"
          using assms(2) by (simp add: Map_keys_def distinct_map_filter)
        then have "distinct (map log_file (map fst (filter (\<lambda>e. snd e \<noteq> []) ?q)))"
          by (subst distinct_map) (simp add: inj_on_def)
        then have d: "distinct (map upd_file us)"
          unfolding files by (simp add: comp_def)
        from execute_updates_failed [OF _ d, of api2 error api3] ex that res
        obtain u where u: "u \<in> set us"
          "lookup (octokit api3) REPO_NAME (upd_file u) = lookup (octokit api2) REPO_NAME (upd_file u)"
          by auto
        from u(1) have "upd_file u \<in> set (map upd_file us)" by simp
        then obtain e where e: "e \<in> set ?q" "snd e \<noteq> []" "upd_file u = log_file (fst e)"
          unfolding files by auto
        have "Map_get (activityQueue gm') (fst e) = Some []"
          using Map_get_cleared [of "fst e" "snd e" ?q] e(1) by (simp add: res)
        with e u(2) show ?thesis
          by (auto simp: res same_store_lookup [OF st])
      qed
      have idle: "processActivityQueue gm' x = (gm', x, None)" for x
      proof -
        have "collect_updates (activityQueue gm') (gm'\<lparr>isProcessingQueue := True\<rparr>) x []
            = (Inr [], gm'\<lparr>isProcessingQueue := True\<rparr>, x)"
          by (rule collect_updates_idle) (simp add: res)
        then show ?thesis
          using assms(1) by (simp add: processActivityQueue_def res)
      qed
      from res lost idle show ?thesis by auto
    qed
  qed
qed


theorem flush_discards_on_failed_write_witness:
  "(case processActivityQueue queue_P
           (remote_P [None, None, None, Some (JsError ''socket hang up'' None)]) of
      (gm', api', err) \<Rightarrow>
        err = Some (JsError ''Failed to update file: socket hang up'' None)
      \<and> length (requests (octokit api')) = 1
      \<and> activityQueue gm' = [(''P'', [])]
      \<and> lookup (octokit api') REPO_NAME (log_file ''P'') =
           Some (File 7 (JsonArray [sample_log ''old.js'' ''t0'']))
      \<and> processActivityQueue gm' api' = (gm', api', None))"
proof -
  let ?api = "remote_P [None, None, None, Some (JsError ''socket hang up'' None)]"
  obtain gm' api' err where run: "processActivityQueue queue_P ?api = (gm', api', err)"
    by (metis prod_cases3)
  have q: "activityQueue queue_P = [(''P'', [sample_log ''a.js'' ''t1'', sample_log ''b.js'' ''t2''])]"
    and n: "\<not> isProcessingQueue queue_P"
    by (simp_all add: queue_eval)
  have d: "distinct (Map_keys (activityQueue queue_P))"
    by (simp add: q Map_keys_def)
  have err: "err = Some (JsError ''Failed to update file: socket hang up'' None)"
    using run [symmetric] by (simp add: flush_eval)
  have rq: "length (requests (octokit api')) = 1"
    using run [symmetric] by (simp add: flush_eval)
  have l: "lookup (octokit ?api) REPO_NAME (log_file ''P'') =
        Some (File 7 (JsonArray [sample_log ''old.js'' ''t0'']))"
    by (simp add: queue_eval)
  have pre: "err = Some (JsError ''Failed to update file: socket hang up'' None)
      \<and> error_message (JsError ''Failed to update file: socket hang up'' None)
          = ''Failed to update file: '' @ ''socket hang up''"
    using err by simp
  note t = flush_discards_on_failed_write [OF n d run, THEN conjunct2, rule_format, OF pre]
  have gm': "gm' = queue_P\<lparr>activityQueue := map (\<lambda>e. (fst e, [])) (activityQueue queue_P)\<rparr>"
    using t by (rule conjunct1)
  have kept: "\<exists>e \<in> set (activityQueue queue_P). snd e \<noteq> []
                \<and> Map_get (activityQueue gm') (fst e) = Some []
                \<and> lookup (octokit api') REPO_NAME (log_file (fst e)) =
                    lookup (octokit ?api) REPO_NAME (log_file (fst e))"
    using t by (rule conjunct2 [THEN conjunct1])
  have idle: "processActivityQueue gm' api' = (gm', api', None)"
    using t [THEN conjunct2, THEN conjunct2] by (rule spec)
  have aq: "activityQueue gm' = [(''P'', [])]"
    by (simp add: gm' q)
  have lk: "lookup (octokit api') REPO_NAME (log_file ''P'') =
           Some (File 7 (JsonArray [sample_log ''old.js'' ''t0'']))"
    using kept l by (simp add: q)
  show ?thesis
    unfolding run using err rq aq lk idle by simp
qed

lemma read_logs_pass:
  assumes "faults (octokit api) = None # fs"
    and "\<forall>sha. lookup (octokit api) REPO_NAME (log_file p) \<noteq> Some (File sha JsonOther)"
  shows "read_logs (fst (getFileContent api REPO_NAME (log_file p))) = ParsedArray (existing_records api p)"
  using assms(2)
  by (auto simp: getFileContent_pass [OF assms(1)] read_logs_def existing_records_def truthy_def
      JSON_parse_def split: option.splits resource.splits content.splits)

lemma update_for_faults [simp]:
  "update_for (api\<lparr>octokit := (octokit api)\<lparr>faults := fs\<rparr>\<rparr>) = update_for api"
  by (rule ext) (simp add: update_for_def existing_records_def)

lemma collect_updates_reads:
  assumes "faults (octokit api) = replicate (length (filter (\<lambda>e. snd e \<noteq> []) es)) None @ fs"
    and "\<forall>e \<in> set es. snd e \<noteq> [] \<longrightarrow>
           (\<forall>sha. lookup (octokit api) REPO_NAME (log_file (fst e)) \<noteq> Some (File sha JsonOther))"
  shows "collect_updates es gm api ups =
     (Inr (ups @ map (update_for api) (filter (\<lambda>e. snd e \<noteq> []) es)),
      gm\<lparr>activityQueue := foldl clear_entry (activityQueue gm) es\<rparr>,
      api\<lparr>octokit := (octokit api)\<lparr>faults := fs\<rparr>\<rparr>)"
  using assms
proof (induction es arbitrary: gm api ups)
  case Nil
  then show ?case by simp
next
  case (Cons entry es)
  obtain p a where entry: "entry = (p, a)" by (cases entry)
  show ?case
  proof (cases "a = []")
    case True
    with Cons show ?thesis by (simp add: entry clear_entry_def)
  next
    case False
    let ?fs1 = "replicate (length (filter (\<lambda>e. snd e \<noteq> []) es)) None @ fs"
    let ?api1 = "api\<lparr>octokit := (octokit api)\<lparr>faults := ?fs1\<rparr>\<rparr>"
    have f: "faults (octokit api) = None # ?fs1"
      using Cons.prems(1) False by (simp add: entry)
    have ok: "\<forall>sha. lookup (octokit api) REPO_NAME (log_file p) \<noteq> Some (File sha JsonOther)"
      using Cons.prems(2) False by (simp add: entry)
    obtain r where g: "getFileContent api REPO_NAME (log_file p) = (r, ?api1)"
      using getFileContent_pass [OF f] by blast
    have logs: "push_all (read_logs r) a = Inr (existing_records api p @ a)"
      using read_logs_pass [OF f ok] by (simp add: g push_all_def)
    have pre: "faults (octokit ?api1) = ?fs1"
      "\<forall>e \<in> set es. snd e \<noteq> [] \<longrightarrow>
           (\<forall>sha. lookup (octokit ?api1) REPO_NAME (log_file (fst e)) \<noteq> Some (File sha JsonOther))"
      using Cons.prems(2) by simp_all
    from Cons.IH [OF pre, of "gm\<lparr>activityQueue := Map_set p [] (activityQueue gm)\<rparr>"] False
    show ?thesis
      by (simp add: entry g logs clear_entry_def update_for_def [of api] JSON_stringify_def)
  qed
qed

text \<open>
  C9. When the read of a project's remote log fails with an error whose status is not 404,
  \<open>getFileContent\<close> throws, the inner \<open>catch\<close> absorbs the error, and the loop goes on with a
  pending update that holds the buffered records only; this holds at every position of
  the loop and whatever the transport does later. When this read is the only request that
  fails and the other projects' logs can be read and written, the flush ends without
  error, and the project's remote log, whatever it held, holds exactly the buffered
  records: the write carries the token of the file it replaces.
\<close>

theorem flush_overwrites_after_failed_read:
  assumes "\<not> isProcessingQueue gm"
    and "distinct (Map_keys (activityQueue gm))"
    and "activityQueue gm = before @ (p, rs) # rest" and "rs \<noteq> []"
    and "faults (octokit api) =
           replicate (length (filter (\<lambda>e. snd e \<noteq> []) before)) None @ [Some error]"
    and "error_status error \<noteq> Some 404"
    and "REPO_NAME \<in> repos (octokit api)"
    and "lookup (octokit api) REPO_NAME (log_file p) = Some (File sha c)"
    and "\<forall>e \<in> set (before @ rest). snd e \<noteq> [] \<longrightarrow>
        (\<forall>sha. lookup (octokit api) REPO_NAME (log_file (fst e)) \<noteq> Some (File sha JsonOther))
        \<and> lookup (octokit api) REPO_NAME (log_file (fst e)) \<noteq> Some Directory"
    and "processActivityQueue gm api = (gm', api', err)"
  shows "(faults (octokit api0) = Some error # fs \<longrightarrow>
            fst (getFileContent api0 REPO_NAME (log_file p)) = Inl error
          \<and> collect_updates ((p, rs) # es) gm0 api0 ups =
              collect_updates es (gm0\<lparr>activityQueue := Map_set p [] (activityQueue gm0)\<rparr>)
                (api0\<lparr>octokit := (octokit api0)\<lparr>faults := fs\<rparr>\<rparr>)
                (ups @ [\<lparr> upd_file = log_file p, upd_content = JsonArray rs,
                          upd_message = ''Update activity log with '' @ show_nat (length rs)
                                          @ '' entries'' \<rparr>]))
       \<and> err = None
       \<and> Map_get (activityQueue gm') p = Some []
       \<and> (\<exists>sha'. lookup (octokit api') REPO_NAME (log_file p) = Some (File sha' (JsonArray rs)))
       \<and> \<lparr> req_repo = REPO_NAME, req_path = log_file p,
            req_message = ''Update activity log with '' @ show_nat (length rs) @ '' entries'',
            req_content = JsonArray rs, req_sha = Some sha \<rparr> \<in> set (requests (octokit api'))"
proof -
  let ?q = "activityQueue gm"
  let ?ne = "\<lambda>e::string \<times> activity_log list. snd e \<noteq> []"
  let ?api_a = "api\<lparr>octokit := (octokit api)\<lparr>faults := [Some error]\<rparr>\<rparr>"
  let ?api_b = "api\<lparr>octokit := (octokit api)\<lparr>faults := []\<rparr>\<rparr>"
  let ?u = "\<lparr> upd_file = log_file p, upd_content = JsonArray rs,
              upd_message = ''Update activity log with '' @ show_nat (length rs) @ '' entries'' \<rparr>"
  let ?gm1 = "gm\<lparr>isProcessingQueue := True\<rparr>"
  have step: "collect_updates ((p, rs) # es) x y ups =
           collect_updates es (x\<lparr>activityQueue := Map_set p [] (activityQueue x)\<rparr>)
             (y\<lparr>octokit := (octokit y)\<lparr>faults := fs\<rparr>\<rparr>) (ups @ [?u])"
    and read: "fst (getFileContent y REPO_NAME (log_file p)) = Inl error"
    if "faults (octokit y) = Some error # fs" for x y ups es fs
    using assms(4) getFileContent_fault [OF that assms(6)]
    by (simp_all add: read_logs_def push_all_def JSON_stringify_def)
  define us where "us = map (update_for api) (filter ?ne before) @ ?u #
      map (update_for api) (filter ?ne rest)"
  have ok_before: "\<forall>e \<in> set before. snd e \<noteq> [] \<longrightarrow>
           (\<forall>sha. lookup (octokit api) REPO_NAME (log_file (fst e)) \<noteq> Some (File sha JsonOther))"
    and ok_rest: "\<forall>e \<in> set rest. snd e \<noteq> [] \<longrightarrow>
           (\<forall>sha. lookup (octokit ?api_b) REPO_NAME (log_file (fst e)) \<noteq> Some (File sha JsonOther))"
    using assms(9) by simp_all
  obtain G1 where c1: "collect_updates before ?gm1 api [] =
      (Inr ([] @ map (update_for api) (filter ?ne before)), G1, ?api_a)"
    using collect_updates_reads [OF assms(5) ok_before, of ?gm1 "[]"] by blast
  have c2: "collect_updates ((p, rs) # rest) G1 ?api_a (map (update_for api) (filter ?ne before)) =
      collect_updates rest (G1\<lparr>activityQueue := Map_set p [] (activityQueue G1)\<rparr>) ?api_b
        (map (update_for api) (filter ?ne before) @ [?u])"
    using step [of ?api_a "[]" rest G1 "map (update_for api) (filter ?ne before)"] by simp
  obtain G2 where c3: "collect_updates rest (G1\<lparr>activityQueue := Map_set p [] (activityQueue G1)\<rparr>) ?api_b
        (map (update_for api) (filter ?ne before) @ [?u]) = (Inr us, G2, ?api_b)"
    using collect_updates_sound [of ?api_b rest _ "map (update_for api) (filter ?ne before) @ [?u]", OF _ ok_rest]
    by (simp add: us_def)
  have col: "collect_updates ?q ?gm1 api [] = (Inr us, G2, ?api_b)"
    unfolding assms(3) collect_updates_append c1 by (simp only: prod.case sum.case append_Nil c2 c3)
  note k = collect_updates_Inr [OF col]
  have G2: "G2 = ?gm1\<lparr>activityQueue := map (\<lambda>e. (fst e, [])) ?q\<rparr>"
    using k clear_entry_all [of ?q] assms(2) by (simp add: Map_keys_def)
  have files: "map upd_file us = map log_file (map fst (filter ?ne ?q))"
    using k by (simp add: comp_def)
  have "distinct (map fst (filter ?ne ?q))"
    using assms(2) by (simp add: Map_keys_def distinct_map_filter)
  then have "distinct (map log_file (map fst (filter ?ne ?q)))"
    by (subst distinct_map) (simp add: inj_on_def)
  then have d: "distinct (map upd_file us)"
    unfolding files .
  have nd: "\<forall>u \<in> set us. lookup (octokit ?api_b) REPO_NAME (upd_file u) \<noteq> Some Directory"
    using assms(8,9) by (auto simp: us_def update_for_def)
  have sound: "faults (octokit ?api_b) = []" "REPO_NAME \<in> repos (octokit ?api_b)"
    using assms(7) by simp_all
  from execute_updates_sound [OF sound d nd] obtain api3 where
    ex: "execute_updates us ?api_b = (None, api3)"
    and rq: "requests (octokit api3) = requests (octokit ?api_b) @ map (request_for ?api_b) us"
    and wr: "\<forall>u \<in> set us. \<exists>sha. lookup (octokit api3) REPO_NAME (upd_file u) = Some (File sha (upd_content u))"
    by blast
  have reset: "gm\<lparr>isProcessingQueue := True, activityQueue := X, isProcessingQueue := False\<rparr>
      = gm\<lparr>activityQueue := X\<rparr>" for X
    using assms(1) by (cases gm) simp
  have "processActivityQueue gm api =
      (gm\<lparr>activityQueue := map (\<lambda>e. (fst e, [])) ?q\<rparr>, api3, None)"
  proof -
    have "Map_size ?q \<noteq> 0" by (simp add: assms(3) Map_size_def)
    then show ?thesis
      using assms(1) by (simp add: processActivityQueue_def col ex G2 reset)
  qed
  with assms(10) have res: "gm' = gm\<lparr>activityQueue := map (\<lambda>e. (fst e, [])) ?q\<rparr>"
    "api' = api3" "err = None"
    by simp_all
  have "(p, rs) \<in> set ?q" by (simp add: assms(3))
  from Map_get_cleared [OF this] have q: "Map_get (activityQueue gm') p = Some []"
    by (simp add: res)
  have mem: "?u \<in> set us" by (simp add: us_def)
  have w: "\<exists>sha'. lookup (octokit api') REPO_NAME (log_file p) = Some (File sha' (JsonArray rs))"
    using wr [rule_format, OF mem] by (simp add: res)
  have "request_for ?api_b ?u \<in> set (requests (octokit api3))"
    using mem by (simp add: rq)
  then have r: "\<lparr> req_repo = REPO_NAME, req_path = log_file p,
            req_message = ''Update activity log with '' @ show_nat (length rs) @ '' entries'',
            req_content = JsonArray rs, req_sha = Some sha \<rparr> \<in> set (requests (octokit api'))"
    using assms(8) by (simp add: res request_for_def token_of_def)
  from step [of api0 fs es gm0 ups] read [of api0 fs] res(3) q w r show ?thesis by blast
qed

theorem flush_overwrites_after_failed_read_witness:
  "activityQueue queue_QP =
      [(''Q'', [(sample_log ''q.js'' ''t0'')\<lparr>project := ''Q''\<rparr>]),
       (''P'', [sample_log ''a.js'' ''t1'', sample_log ''b.js'' ''t2''])]
   \<and> lookup (octokit (remote_P [None, Some (JsError ''Server Error'' (Some 500))])) REPO_NAME (log_file ''P'') =
        Some (File 7 (JsonArray [sample_log ''old.js'' ''t0'']))
   \<and> fst (getFileContent (remote_P [Some (JsError ''Server Error'' (Some 500))]) REPO_NAME (log_file ''P''))
        = Inl (JsError ''Server Error'' (Some 500))
   \<and> (case processActivityQueue queue_QP (remote_P [None, Some (JsError ''Server Error'' (Some 500))]) of
        (gm', api', err) \<Rightarrow>
          err = None
        \<and> Map_get (activityQueue gm') ''P'' = Some []
        \<and> (\<exists>sha'. lookup (octokit api') REPO_NAME (log_file ''P'') =
              Some (File sha' (JsonArray [sample_log ''a.js'' ''t1'', sample_log ''b.js'' ''t2'']))))"
proof -
  let ?e = "JsError ''Server Error'' (Some 500)"
  let ?api = "remote_P [None, Some ?e]"
  let ?rs = "[sample_log ''a.js'' ''t1'', sample_log ''b.js'' ''t2'']"
  let ?before = "[(''Q'', [(sample_log ''q.js'' ''t0'')\<lparr>project := ''Q''\<rparr>])]"
  obtain gm' api' err where run: "processActivityQueue queue_QP ?api = (gm', api', err)"
    by (metis prod_cases3)
  have q: "activityQueue queue_QP = ?before @ (''P'', ?rs) # []" and n: "\<not> isProcessingQueue queue_QP"
    by (simp_all add: queue_QP_def queue_eval)
  have d: "distinct (Map_keys (activityQueue queue_QP))"
    by (simp add: q Map_keys_def)
  have l: "lookup (octokit ?api) REPO_NAME (log_file ''P'') =
        Some (File 7 (JsonArray [sample_log ''old.js'' ''t0'']))"
    by (simp add: queue_eval)
  have h: "?rs \<noteq> []"
    "faults (octokit ?api) = replicate (length (filter (\<lambda>e. snd e \<noteq> []) ?before)) None @ [Some ?e]"
    "error_status ?e \<noteq> Some 404"
    "REPO_NAME \<in> repos (octokit ?api)"
    by (simp_all add: queue_eval)
  have r: "\<forall>e \<in> set (?before @ []). snd e \<noteq> [] \<longrightarrow>
        (\<forall>sha. lookup (octokit ?api) REPO_NAME (log_file (fst e)) \<noteq> Some (File sha JsonOther))
        \<and> lookup (octokit ?api) REPO_NAME (log_file (fst e)) \<noteq> Some Directory"
    by (simp add: queue_eval)
  have f0: "faults (octokit (remote_P [Some ?e])) = Some ?e # []"
    by (simp add: remote_P_def)
  from flush_overwrites_after_failed_read [OF n d q h l r run, of "remote_P [Some ?e]" "[]"] f0 l q
  show ?thesis
    by (simp add: run)
qed

lemma ensureProfileReadme_requests:
  assumes "ensureProfileReadme api updatedContent = (err, api2)"
  shows "\<exists>new. requests (octokit api2) = requests (octokit api) @ new \<and> length new \<le> 1
       \<and> (\<forall>req \<in> set new.
             req_repo req = username api \<and> req_path req = ''README.md''
           \<and> req_content req = updatedContent
           \<and> (\<forall>sha. req_sha req = Some sha \<longrightarrow>
                 (\<exists>c. lookup (octokit api) (username api) ''README.md'' = Some (File sha c)))
           \<and> (faults (octokit api) = [] \<longrightarrow>
                 req_sha req = token_of (lookup (octokit api) (username api) ''README.md'')))"
proof -
  obtain r api_r where g: "getFileContent api (username api) ''README.md'' = (r, api_r)"
    by (cases "getFileContent api (username api) ''README.md''")
  note st = getFileContent_same_store [OF g]
  have lk: "lookup (octokit api_r) repo path = lookup (octokit api) repo path" for repo path
    using same_store_lookup [OF st] .
  have un: "username api_r = username api" and rq: "requests (octokit api_r) = requests (octokit api)"
    and fl: "faults (octokit api) = [] \<Longrightarrow> faults (octokit api_r) = []"
    using st by (auto simp: same_store_def)
  show ?thesis
  proof (cases "\<exists>res. updateFile api_r (username api) ''README.md'' updatedContent
             ''Update profile README with visualizations'' = (res, api2)")
    case True
    then obtain res where u: "updateFile api_r (username api) ''README.md'' updatedContent
             ''Update profile README with visualizations'' = (res, api2)" by blast
    from updateFile_cases [OF u] fl show ?thesis
      unfolding lk rq by (elim conjE exE) (rule exI, auto)
  next
    case False
    with assms g un have "api2 = api_r"
      by (auto simp: ensureProfileReadme_def split: sum.splits if_splits prod.splits)
    then show ?thesis by (simp add: rq)
  qed
qed

text \<open>
  C8. \<open>updateFile\<close> sends at most one write request. A token it passes is the SHA of the
  file stored under the path, which it has read just before; when nothing is stored there
  it passes none. When no request fails, the token is exactly the one that belongs to the
  path (the SHA of an existing file, none otherwise), and so it is for every write that
  succeeds. The same holds for the write of \<open>ensureProfileReadme\<close>, which goes through
  \<open>updateFile\<close>.
\<close>

theorem writes_pass_read_token:
  assumes "updateFile api repo path content message = (res, api1)"
    and "ensureProfileReadme api updatedContent = (err, api2)"
  shows "(\<exists>new. requests (octokit api1) = requests (octokit api) @ new \<and> length new \<le> 1
          \<and> (\<forall>req \<in> set new.
                req_repo req = repo \<and> req_path req = path \<and> req_content req = content
              \<and> (\<forall>sha. req_sha req = Some sha \<longrightarrow>
                    (\<exists>c. lookup (octokit api) repo path = Some (File sha c)))
              \<and> (faults (octokit api) = [] \<longrightarrow>
                    req_sha req = token_of (lookup (octokit api) repo path)))
          \<and> (res = Inr () \<longrightarrow> new \<noteq> []
                \<and> req_sha (hd new) = token_of (lookup (octokit api) repo path)))
       \<and> (\<exists>new. requests (octokit api2) = requests (octokit api) @ new \<and> length new \<le> 1
          \<and> (\<forall>req \<in> set new.
                req_repo req = username api \<and> req_path req = ''README.md''
              \<and> req_content req = updatedContent
              \<and> (\<forall>sha. req_sha req = Some sha \<longrightarrow>
                    (\<exists>c. lookup (octokit api) (username api) ''README.md'' = Some (File sha c)))
              \<and> (faults (octokit api) = [] \<longrightarrow>
                    req_sha req = token_of (lookup (octokit api) (username api) ''README.md''))))"
proof -
  from updateFile_cases [OF assms(1)]
  have "\<exists>new. requests (octokit api1) = requests (octokit api) @ new \<and> length new \<le> 1
          \<and> (\<forall>req \<in> set new.
                req_repo req = repo \<and> req_path req = path \<and> req_content req = content
              \<and> (\<forall>sha. req_sha req = Some sha \<longrightarrow>
                    (\<exists>c. lookup (octokit api) repo path = Some (File sha c)))
              \<and> (faults (octokit api) = [] \<longrightarrow>
                    req_sha req = token_of (lookup (octokit api) repo path)))
          \<and> (res = Inr () \<longrightarrow> new \<noteq> []
                \<and> req_sha (hd new) = token_of (lookup (octokit api) repo path))"
    by (elim conjE exE) (rule exI, auto)
  with ensureProfileReadme_requests [OF assms(2)] show ?thesis by blast
qed

theorem writes_pass_read_token_witness:
  "lookup (octokit (remote_P [])) REPO_NAME (log_file ''P'') =
        Some (File 7 (JsonArray [sample_log ''old.js'' ''t0'']))
   \<and> lookup (octokit (remote_P [])) (username (remote_P [])) ''README.md'' = None
   \<and> updateFile (remote_P []) REPO_NAME (log_file ''P'') (JsonArray []) ''m'' =
        (Inr (), snd (updateFile (remote_P []) REPO_NAME (log_file ''P'') (JsonArray []) ''m''))
   \<and> requests (octokit (snd (updateFile (remote_P []) REPO_NAME (log_file ''P'') (JsonArray []) ''m''))) =
        [\<lparr> req_repo = REPO_NAME, req_path = log_file ''P'', req_message = ''m'',
           req_content = JsonArray [], req_sha = Some 7 \<rparr>]
   \<and> requests (octokit (snd (ensureProfileReadme (remote_P []) (PlainText ''# Hi there'')))) =
        [\<lparr> req_repo = ''octo'', req_path = ''README.md'',
           req_message = ''Update profile README with visualizations'',
           req_content = PlainText ''# Hi there'', req_sha = None \<rparr>]"
  using writes_pass_read_token [of "remote_P []" REPO_NAME "log_file ''P''" "JsonArray []" "''m''"
      "fst (updateFile (remote_P []) REPO_NAME (log_file ''P'') (JsonArray []) ''m'')"
      "snd (updateFile (remote_P []) REPO_NAME (log_file ''P'') (JsonArray []) ''m'')"
      "PlainText ''# Hi there''"
      "fst (ensureProfileReadme (remote_P []) (PlainText ''# Hi there''))"
      "snd (ensureProfileReadme (remote_P []) (PlainText ''# Hi there''))"]
  by (simp add: flush_eval ensureProfileReadme_def)

end
